theory Spec2Isabelle
  imports Complex_Main
begin

section \<open>The command-line configuration of ldsc\<close>

text \<open>
  The file \<^verbatim>\<open>src/ldsc/parsers/ldsc_parser.py\<close> declares the options of the four ldsc
  subcommands (\<^verbatim>\<open>rg\<close>, \<^verbatim>\<open>h2\<close>, \<^verbatim>\<open>h2-cts\<close>, \<^verbatim>\<open>generate-ldscores\<close>) with Python's
  \<^verbatim>\<open>argparse\<close>. The declarations are data; what they mean is fixed by how
  \<^verbatim>\<open>ArgumentParser.parse_args\<close> reads them. Both are embedded here: every
  \<^verbatim>\<open>add_argument\<close> call of the file as a record, and the part of \<^verbatim>\<open>parse_args\<close> that
  those records reach (defaults, type conversion, the actions, mutually exclusive
  groups, required options, unrecognised arguments).
\<close>

subsection \<open>Values held by a namespace\<close>

text \<open>
  \<^verbatim>\<open>PyFloat s\<close> stands for the float that \<^verbatim>\<open>float(s)\<close> returns and \<^verbatim>\<open>Path s\<close> for
  \<^verbatim>\<open>pathlib.Path(s)\<close>; neither is computed with. \<^verbatim>\<open>PyFunc\<close> names the function a
  subcommand dispatches to, and \<^verbatim>\<open>SUPPRESS\<close> is argparse's marker for "no attribute".
\<close>

datatype val =
    PyNone
  | PyBool bool
  | PyInt int
  | PyFloat string
  | PyStr string
  | Path string
  | PyList "val list"
  | PyFunc string
  | SUPPRESS

text \<open>The \<^verbatim>\<open>type=\<close> keyword of \<^verbatim>\<open>add_argument\<close>; \<^verbatim>\<open>type_unset\<close> when it is left out.\<close>

datatype ptype = type_unset | type_str | type_int | type_float | type_Path

text \<open>
  The \<^verbatim>\<open>action=\<close> keyword: argparse's \<^verbatim>\<open>store\<close> (the default), \<^verbatim>\<open>store_true\<close>,
  \<^verbatim>\<open>append\<close> and \<^verbatim>\<open>help\<close> (\<^verbatim>\<open>print_help\<close> here), and the class \<^verbatim>\<open>ChecknBlocks\<close> of \<^verbatim>\<open>ldsc.callbacks\<close>.
\<close>

datatype act = store | store_true | append | print_help | ChecknBlocks

text \<open>
  The four mutually exclusive groups the file creates. Groups are objects, so a
  group of the caller's parent parser is never one of these four: \<^verbatim>\<open>parent_group\<close>.
\<close>

datatype mutex_group =
    ref_ld_group
  | w_ld_group
  | annot_extract_group
  | per_allele_pq_exp_group
  | parent_group nat

record argument =
  option_strings :: "string list"
  dest :: string
  dflt :: val
  conv :: ptype
  action :: act
  required :: bool
  mutex :: "mutex_group option"

text \<open>
  argparse derives \<^verbatim>\<open>dest\<close> from the first long option string: the leading dashes
  are stripped and every other dash becomes an underscore.
\<close>

definition get_dest :: "string list \<Rightarrow> string" where
  "get_dest flags =
     (let long = filter (\<lambda>f. take 2 f = ''--'') flags;
          f = (case long of [] \<Rightarrow> (case flags of [] \<Rightarrow> [] | g # _ \<Rightarrow> g) | g # _ \<Rightarrow> g)
      in map (\<lambda>c. if c = CHR ''-'' then CHR ''_'' else c) (dropWhile (\<lambda>c. c = CHR ''-'') f))"

definition add_argument ::
    "mutex_group option \<Rightarrow> string \<Rightarrow> val \<Rightarrow> ptype \<Rightarrow> act \<Rightarrow> bool \<Rightarrow> argument" where
  "add_argument g flag d t a r =
     \<lparr>option_strings = [flag], dest = get_dest [flag], dflt = d, conv = t, action = a,
      required = r, mutex = g\<rparr>"

text \<open>The help option every subparser gets (\<^verbatim>\<open>add_help\<close> is left at its default).\<close>

definition help_argument :: argument where
  "help_argument =
     \<lparr>option_strings = [''-h'', ''--help''], dest = get_dest [''-h'', ''--help''],
      dflt = SUPPRESS, conv = type_unset, action = print_help, required = False, mutex = None\<rparr>"

subsection \<open>The declarations of \<^verbatim>\<open>configure_parser\<close>\<close>

text \<open>
  \<^verbatim>\<open>common_ldsc_parser\<close>, in the order of the source. An option declared without
  \<^verbatim>\<open>default=\<close> has the default \<^verbatim>\<open>None\<close>, a \<^verbatim>\<open>store_true\<close> option the default \<^verbatim>\<open>False\<close>.
\<close>

definition common_ldsc_parser :: "argument list" where
  "common_ldsc_parser =
     [add_argument (Some ref_ld_group) ''--ref-ld'' PyNone type_str store False,
      add_argument (Some ref_ld_group) ''--ref-ld-chr'' (Path '''') type_Path store False,
      add_argument (Some w_ld_group) ''--w-ld'' PyNone type_str store False,
      add_argument (Some w_ld_group) ''--w-ld-chr'' PyNone type_Path store False,
      add_argument None ''--overlap-annot'' (PyBool False) type_unset store_true False,
      add_argument None ''--print-coefficients'' (PyBool False) type_unset store_true False,
      add_argument None ''--frqfile'' PyNone type_str store False,
      add_argument None ''--frqfile-chr'' PyNone type_str store False,
      add_argument None ''--no-intercept'' (PyBool False) type_unset store_true False,
      add_argument None ''--intercept-h2'' PyNone type_unset store False,
      add_argument None ''--intercept-gencov'' PyNone type_unset store False,
      add_argument None ''--M'' PyNone type_str store False,
      add_argument None ''--two-step'' PyNone type_float store False,
      add_argument None ''--chisq-max'' PyNone type_float store False,
      add_argument None ''--ref-ld-chr-cts'' PyNone type_str store False,
      add_argument None ''--print-all-cts'' (PyBool False) type_unset store_true False,
      add_argument None ''--print-cov'' (PyBool False) type_unset store_true False,
      add_argument None ''--print-delete-vals'' (PyBool False) type_unset store_true False,
      add_argument None ''--invert-anyway'' (PyBool False) type_unset store_true False,
      add_argument None ''--n-blocks'' (PyInt 200) type_int ChecknBlocks False,
      add_argument None ''--not-M-5-50'' (PyBool False) type_unset store_true False,
      add_argument None ''--no-check-alleles'' (PyBool False) type_unset store_true False,
      add_argument None ''--samp-prev'' PyNone type_unset store False,
      add_argument None ''--pop-prev'' PyNone type_unset store False]"

subsection \<open>The declarations of \<^verbatim>\<open>_add_subparsers\<close>\<close>

datatype subcommand = rg | h2 | h2_cts | generate_ldscores

definition rg_parser :: "argument list" where
  "rg_parser = [add_argument None ''--rg'' PyNone type_Path append False]"

definition h2_parser :: "argument list" where
  "h2_parser = [add_argument None ''--h2'' PyNone type_Path store False]"

definition h2_cts_parser :: "argument list" where
  "h2_cts_parser = [add_argument None ''--h2-cts'' PyNone type_Path store False]"

definition ldscore_parser :: "argument list" where
  "ldscore_parser =
     [add_argument None ''--bfile'' PyNone type_str store True,
      add_argument None ''--l2'' (PyBool False) type_unset store_true True,
      add_argument None ''--keep'' PyNone type_Path store False,
      add_argument None ''--cts-bin'' PyNone type_str store False,
      add_argument None ''--cts-breaks'' PyNone type_str store False,
      add_argument None ''--cts-names'' PyNone type_str store False,
      add_argument None ''--thin-annot'' (PyBool False) type_unset store_true False,
      add_argument (Some annot_extract_group) ''--extract'' PyNone type_str store False,
      add_argument (Some annot_extract_group) ''--annot'' PyNone type_str store False,
      add_argument None ''--maf'' PyNone type_float store False,
      add_argument None ''--ld-wind-snps'' PyNone type_int store False,
      add_argument None ''--ld-wind-kb'' PyNone type_float store False,
      add_argument None ''--ld-wind-cm'' PyNone type_float store False,
      add_argument None ''--yes-really'' (PyBool False) type_unset store_true False,
      add_argument None ''--chunk-size'' (PyInt 50) type_int store False,
      add_argument None ''--print-snps'' PyNone type_str store False,
      add_argument None ''--no-print-annot'' (PyBool False) type_unset store_true False,
      add_argument (Some per_allele_pq_exp_group) ''--per-allele'' (PyBool False) type_unset
        store_true False,
      add_argument (Some per_allele_pq_exp_group) ''--pq-exp'' PyNone type_float store False]"

fun own_arguments :: "subcommand \<Rightarrow> argument list" where
  "own_arguments rg = rg_parser"
| "own_arguments h2 = h2_parser"
| "own_arguments h2_cts = h2_cts_parser"
| "own_arguments generate_ldscores = ldscore_parser"

text \<open>\<^verbatim>\<open>set_defaults(func=...)\<close> of each subparser.\<close>

fun func :: "subcommand \<Rightarrow> val" where
  "func rg = PyFunc ''sumstats.estimate_rg''"
| "func h2 = PyFunc ''sumstats.estimate_h2''"
| "func h2_cts = PyFunc ''sumstats.cell_type_specific''"
| "func generate_ldscores = PyFunc ''ld.ldscore''"

subsection \<open>What the file takes from outside\<close>

text \<open>
  Three things the parser depends on are not in the file and are parameters:
  Python's \<^verbatim>\<open>int\<close> and \<^verbatim>\<open>float\<close> on a string (\<^verbatim>\<open>py_float s\<close> tells whether \<^verbatim>\<open>float(s)\<close>
  returns), whether \<^verbatim>\<open>ChecknBlocks\<close> lets a converted value pass, and the options of the
  \<^verbatim>\<open>parent_parser\<close> that the caller hands to \<^verbatim>\<open>configure_parser\<close>. Defaults that the
  parent parser sets by \<^verbatim>\<open>set_defaults\<close> only add attributes that no option declares and
  are left out.
\<close>

record env =
  py_int :: "string \<Rightarrow> int option"
  py_float :: "string \<Rightarrow> bool"
  n_blocks_check :: "val \<Rightarrow> bool"
  parent_parser :: "argument list"

text \<open>
  A subparser is built with \<^verbatim>\<open>parents=[common_ldsc_parser, parent_parser]\<close>: after its own
  help option it holds the options of both parents, groups included, then its own.
\<close>

definition subparser :: "env \<Rightarrow> subcommand \<Rightarrow> argument list" where
  "subparser E cmd = help_argument # common_ldsc_parser @ parent_parser E @ own_arguments cmd"

subsection \<open>\<^verbatim>\<open>parse_args\<close>\<close>

datatype error =
    expected_one_argument string
  | ignored_explicit_argument string
  | invalid_value string string
  | not_allowed_with string string
  | n_blocks_rejected val
  | help_exit
  | arguments_required "string list"
  | unrecognized_arguments "string list"

type_synonym namespace = "string \<rightharpoonup> val"

text \<open>
  An invocation is the list of option occurrences that follow the subcommand name, each
  the option string argparse resolved and the argument string it bound to it, if any.
  Splitting \<^verbatim>\<open>--opt=value\<close> and completing an abbreviated option string are argparse's
  own steps before this level: an occurrence carries the option string as declared, or a
  string that no declaration has.
\<close>

type_synonym occurrence = "string \<times> string option"

record pstate =
  namespace :: namespace
  seen_actions :: "argument set"
  extras :: "string list"

fun get_value :: "env \<Rightarrow> ptype \<Rightarrow> string \<Rightarrow> val option" where
  "get_value E type_unset s = Some (PyStr s)"
| "get_value E type_str s = Some (PyStr s)"
| "get_value E type_int s = map_option PyInt (py_int E s)"
| "get_value E type_float s = (if py_float E s then Some (PyFloat s) else None)"
| "get_value E type_Path s = Some (Path s)"

text \<open>\<^verbatim>\<open>store_true\<close> and \<^verbatim>\<open>help\<close> take no argument (\<^verbatim>\<open>nargs=0\<close>), the others exactly one.\<close>

definition nargs0 :: "argument \<Rightarrow> bool" where
  "nargs0 a = (action a = store_true \<or> action a = print_help)"

definition get_values :: "env \<Rightarrow> argument \<Rightarrow> occurrence \<Rightarrow> error + val" where
  "get_values E a occ =
     (if nargs0 a then
        (case snd occ of
           None \<Rightarrow> Inr (PyList [])
         | Some s \<Rightarrow> Inl (ignored_explicit_argument (fst occ)))
      else
        (case snd occ of
           None \<Rightarrow> Inl (expected_one_argument (fst occ))
         | Some s \<Rightarrow>
             (case get_value E (conv a) s of
                None \<Rightarrow> Inl (invalid_value (fst occ) s)
              | Some v \<Rightarrow> Inr v)))"

text \<open>
  Calling the action on the namespace. \<^verbatim>\<open>ChecknBlocks\<close> is not in the file: it is taken
  to read one argument, as an action class does unless it says otherwise, and when its
  check passes to store the value under its \<^verbatim>\<open>dest\<close>, as \<^verbatim>\<open>store\<close> does.
\<close>

definition call_action :: "env \<Rightarrow> argument \<Rightarrow> val \<Rightarrow> namespace \<Rightarrow> error + namespace" where
  "call_action E a v ns =
     (case action a of
        store \<Rightarrow> Inr (ns(dest a \<mapsto> v))
      | store_true \<Rightarrow> Inr (ns(dest a \<mapsto> PyBool True))
      | append \<Rightarrow>
          Inr (ns(dest a \<mapsto>
            PyList ((case ns (dest a) of Some (PyList items) \<Rightarrow> items | _ \<Rightarrow> []) @ [v])))
      | print_help \<Rightarrow> Inl help_exit
      | ChecknBlocks \<Rightarrow>
          (if n_blocks_check E v then Inr (ns(dest a \<mapsto> v)) else Inl (n_blocks_rejected v)))"

definition resolve :: "argument list \<Rightarrow> string \<Rightarrow> argument option" where
  "resolve acts f = find (\<lambda>a. f \<in> set (option_strings a)) acts"

text \<open>
  The first option of the same group, other than \<open>a\<close>, that was seen before. Every
  occurrence of an option counts as seen: the value argparse converts is a new object,
  never the default itself.
\<close>

definition conflict :: "argument list \<Rightarrow> argument set \<Rightarrow> argument \<Rightarrow> argument option" where
  "conflict acts seen a =
     find (\<lambda>b. b \<noteq> a \<and> mutex b \<noteq> None \<and> mutex b = mutex a \<and> b \<in> seen) acts"

definition take_action :: "env \<Rightarrow> argument list \<Rightarrow> pstate \<Rightarrow> occurrence \<Rightarrow> error + pstate" where
  "take_action E acts st occ =
     (case resolve acts (fst occ) of
        None \<Rightarrow>
          Inr (st\<lparr>extras := extras st @ fst occ # (case snd occ of None \<Rightarrow> [] | Some s \<Rightarrow> [s])\<rparr>)
      | Some a \<Rightarrow>
          (case get_values E a occ of
             Inl e \<Rightarrow> Inl e
           | Inr v \<Rightarrow>
               (case conflict acts (seen_actions st) a of
                  Some b \<Rightarrow> Inl (not_allowed_with (fst occ) (hd (option_strings b)))
                | None \<Rightarrow>
                    (case call_action E a v (namespace st) of
                       Inl e \<Rightarrow> Inl e
                     | Inr ns \<Rightarrow>
                         Inr (st\<lparr>namespace := ns,
                                 seen_actions := insert a (seen_actions st)\<rparr>)))))"

fun consume :: "env \<Rightarrow> argument list \<Rightarrow> pstate \<Rightarrow> occurrence list \<Rightarrow> error + pstate" where
  "consume E acts st [] = Inr st"
| "consume E acts st (occ # rest) =
     (case take_action E acts st occ of
        Inl e \<Rightarrow> Inl e
      | Inr st' \<Rightarrow> consume E acts st' rest)"

text \<open>
  Before reading the command line, every option's default is put under its \<^verbatim>\<open>dest\<close>
  unless an earlier option already set that attribute; the parser's own defaults
  (\<^verbatim>\<open>func\<close>) follow in the same way.
\<close>

definition add_default :: "namespace \<Rightarrow> string \<times> val \<Rightarrow> namespace" where
  "add_default ns kv =
     (if snd kv = SUPPRESS \<or> ns (fst kv) \<noteq> None then ns else ns(fst kv \<mapsto> snd kv))"

definition initial_namespace :: "argument list \<Rightarrow> val \<Rightarrow> namespace" where
  "initial_namespace acts f =
     add_default (foldl add_default Map.empty (map (\<lambda>a. (dest a, dflt a)) acts)) (''func'', f)"

definition parse_args :: "env \<Rightarrow> argument list \<Rightarrow> val \<Rightarrow> occurrence list \<Rightarrow> error + namespace" where
  "parse_args E acts f occs =
     (case consume E acts
             \<lparr>namespace = initial_namespace acts f, seen_actions = {}, extras = []\<rparr> occs of
        Inl e \<Rightarrow> Inl e
      | Inr st \<Rightarrow>
          (case filter (\<lambda>a. required a \<and> a \<notin> seen_actions st) acts of
             [] \<Rightarrow>
               (if extras st = [] then Inr (namespace st)
                else Inl (unrecognized_arguments (extras st)))
           | m # ms \<Rightarrow> Inl (arguments_required (map (\<lambda>a. hd (option_strings a)) (m # ms)))))"

text \<open>The parser as the file configures it, run on the occurrences after a subcommand.\<close>

definition ldsc :: "env \<Rightarrow> subcommand \<Rightarrow> occurrence list \<Rightarrow> error + namespace" where
  "ldsc E cmd occs = parse_args E (subparser E cmd) (func cmd) occs"

definition accepts :: "env \<Rightarrow> subcommand \<Rightarrow> occurrence list \<Rightarrow> bool" where
  "accepts E cmd occs = (case ldsc E cmd occs of Inl e \<Rightarrow> False | Inr ns \<Rightarrow> True)"

section \<open>Auxiliary notions\<close>

text \<open>
  The options an invocation supplies, two options of one group clashing, and an
  occurrence passing conversion and its action's check: acceptance is characterised by
  these below.
\<close>

definition supplied :: "argument list \<Rightarrow> occurrence list \<Rightarrow> argument set" where
  "supplied acts occs = {a. \<exists>occ\<in>set occs. resolve acts (fst occ) = Some a}"

definition clash :: "argument \<Rightarrow> argument \<Rightarrow> bool" where
  "clash a b = (a \<noteq> b \<and> mutex a \<noteq> None \<and> mutex a = mutex b)"

definition step_ok :: "env \<Rightarrow> argument \<Rightarrow> occurrence \<Rightarrow> bool" where
  "step_ok E a occ =
     (case get_values E a occ of
        Inl e \<Rightarrow> False
      | Inr v \<Rightarrow> action a \<noteq> print_help \<and> (action a \<noteq> ChecknBlocks \<or> n_blocks_check E v))"

definition steps_ok :: "env \<Rightarrow> argument list \<Rightarrow> occurrence list \<Rightarrow> bool" where
  "steps_ok E acts occs =
     (\<forall>occ\<in>set occs. \<forall>a. resolve acts (fst occ) = Some a \<longrightarrow> step_ok E a occ)"

definition clash_free :: "argument set \<Rightarrow> argument set \<Rightarrow> bool" where
  "clash_free S T = (\<forall>a\<in>T. \<forall>b\<in>S \<union> T. \<not> clash a b)"

text \<open>An option string occurs in an invocation.\<close>

definition given :: "string \<Rightarrow> occurrence list \<Rightarrow> bool" where
  "given f occs = (f \<in> fst ` set occs)"

text \<open>The options this file declares: for one subcommand, and for all four.\<close>

definition declared :: "subcommand \<Rightarrow> argument list" where
  "declared cmd = help_argument # common_ldsc_parser @ own_arguments cmd"

definition all_declared :: "argument list" where
  "all_declared =
     help_argument # common_ldsc_parser @ rg_parser @ h2_parser @ h2_cts_parser @ ldscore_parser"

definition declared_flags :: "string list" where
  "declared_flags = concat (map option_strings all_declared)"

definition declared_dests :: "string list" where
  "declared_dests = map dest all_declared"

text \<open>
  What the results below ask of the parent parser. Its option strings are not among
  this file's: argparse raises a conflict when the subparsers are built otherwise. Its
  options write to attributes other than this file's, and its groups are its own.
\<close>

fun own_group :: "mutex_group option \<Rightarrow> bool" where
  "own_group None = False"
| "own_group (Some (parent_group k)) = False"
| "own_group (Some g) = True"

definition parent_ok :: "argument list \<Rightarrow> bool" where
  "parent_ok P =
     list_all (\<lambda>a. list_all (\<lambda>f. f \<notin> set declared_flags) (option_strings a) \<and>
                    dest a \<notin> set declared_dests \<and> \<not> own_group (mutex a)) P"

text \<open>
  An environment to run the parser in. Its \<^verbatim>\<open>int\<close> reads unsigned decimal numerals and
  its \<^verbatim>\<open>float\<close> accepts digits with at most one point (Python accepts more); the check on
  \<^verbatim>\<open>--n-blocks\<close> lets every value pass and the parent parser declares one option,
  \<^verbatim>\<open>--out\<close>.
\<close>

definition digit_val :: "char \<Rightarrow> int" where
  "digit_val c = int (of_char c) - 48"

definition is_digit :: "char \<Rightarrow> bool" where
  "is_digit c = (0 \<le> digit_val c \<and> digit_val c \<le> 9)"

definition example_int :: "string \<Rightarrow> int option" where
  "example_int s =
     (if s \<noteq> [] \<and> list_all is_digit s
      then Some (foldl (\<lambda>n c. 10 * n + digit_val c) 0 s) else None)"

definition example_float :: "string \<Rightarrow> bool" where
  "example_float s =
     (list_all (\<lambda>c. is_digit c \<or> c = CHR ''.'') s \<and> list_ex is_digit s \<and>
      length (filter (\<lambda>c. c = CHR ''.'') s) \<le> 1)"

definition example_env :: env where
  "example_env =
     \<lparr>py_int = example_int, py_float = example_float, n_blocks_check = (\<lambda>v. True),
      parent_parser = [add_argument None ''--out'' PyNone type_str store False]\<rparr>"


text \<open>Whether a configuration has a flag set.\<close>

definition flag_set :: "namespace \<Rightarrow> string \<Rightarrow> bool" where
  "flag_set ns d = (ns d = Some (PyBool True))"

text \<open>The conditions of the spec's error taxonomy that the numerical stages raise.\<close>

datatype run_error = SingularDesign | AlleleMismatch | InvalidPrevalence

text \<open>
  Modelled from the spec: the regression that inverts the weighted design is not among
  the source files. The spec says that an ill-conditioned matrix is reported as a
  SingularDesign condition and fails the run unless an explicit override is set, and
  that with the override a pseudo-inverse or regularized solve is used and the result is
  flagged as approximate. \<open>exact_inverse\<close> is the exact solve, \<open>None\<close> on an ill-conditioned
  design, and \<open>pseudo_inverse\<close> the solve used under the override.
\<close>

record 'c fit =
  coefficients :: 'c
  approximate :: bool

definition solve :: "bool \<Rightarrow> ('d \<Rightarrow> 'c option) \<Rightarrow> ('d \<Rightarrow> 'c) \<Rightarrow> 'd \<Rightarrow> run_error + 'c fit" where
  "solve invert_anyway exact_inverse pseudo_inverse design =
     (case exact_inverse design of
        Some c \<Rightarrow> Inr \<lparr>coefficients = c, approximate = False\<rparr>
      | None \<Rightarrow>
          (if invert_anyway then Inr \<lparr>coefficients = pseudo_inverse design, approximate = True\<rparr>
           else Inl SingularDesign))"

text \<open>A one-by-one design to run \<open>solve\<close> on: its inverse and its pseudo-inverse.\<close>

definition inverse1 :: "real \<Rightarrow> real option" where
  "inverse1 x = (if x = 0 then None else Some (1 / x))"

definition pseudo_inverse1 :: "real \<Rightarrow> real" where
  "pseudo_inverse1 x = (if x = 0 then 0 else 1 / x)"

text \<open>
  Modelled from the spec: the cross-trait allele harmonization is not among the source
  files. The spec says that harmonization fails with an AlleleMismatch condition for a
  SNP whose alleles cannot be matched between the two studies unless allele checking is
  disabled, that the SNP is dropped and a count surfaced, and that the condition is fatal
  only if the drop rate exceeds a sanity threshold. \<open>matchable\<close> tells whether the
  alleles of a SNP can be matched and \<open>threshold\<close> is the sanity threshold; the spec
  gives neither.
\<close>

record 'snp harmonized =
  kept :: "'snp list"
  mismatches :: nat

definition harmonize ::
    "bool \<Rightarrow> ('snp \<Rightarrow> bool) \<Rightarrow> real \<Rightarrow> 'snp list \<Rightarrow> run_error + 'snp harmonized" where
  "harmonize no_check_alleles matchable threshold snps =
     (if no_check_alleles then Inr \<lparr>kept = snps, mismatches = 0\<rparr>
      else
        (let dropped = length (filter (\<lambda>s. \<not> matchable s) snps) in
         if threshold * real (length snps) < real dropped then Inl AlleleMismatch
         else Inr \<lparr>kept = filter matchable snps, mismatches = dropped\<rparr>))"

text \<open>A reading of unsigned decimal numerals as numbers, to run the conversion on.\<close>

definition example_real :: "string \<Rightarrow> real" where
  "example_real s =
     (let whole = takeWhile (\<lambda>c. c \<noteq> CHR ''.'') s;
          frac = drop 1 (dropWhile (\<lambda>c. c \<noteq> CHR ''.'') s)
      in real_of_int (foldl (\<lambda>n c. 10 * n + digit_val c) 0 (whole @ frac)) / 10 ^ length frac)"

text \<open>
  Modelled from the spec: the liability-scale conversion is not among the source files.
  The spec says that the conversion rescales the observed-scale estimate using sample and
  population prevalence by an ascertainment-correction formula, that it fails with an
  InvalidPrevalence condition if either prevalence is outside (0,1), and that this is
  fatal only for the conversion step: the observed-scale estimate is still returned.
  \<open>factor\<close> is the correction the formula multiplies by and \<open>to_real\<close> the number a
  prevalence string denotes; the spec gives neither. The conversion is requested when
  both prevalences are in the configuration.
\<close>

definition liability_scale :: "(real \<Rightarrow> real \<Rightarrow> real) \<Rightarrow> real \<Rightarrow> real \<Rightarrow> real \<Rightarrow> run_error + real" where
  "liability_scale factor samp_prev pop_prev h2_obs =
     (if 0 < samp_prev \<and> samp_prev < 1 \<and> 0 < pop_prev \<and> pop_prev < 1
      then Inr (h2_obs * factor samp_prev pop_prev) else Inl InvalidPrevalence)"

record h2_estimate =
  observed :: real
  liability :: "(run_error + real) option"

definition summarize ::
    "(string \<Rightarrow> real) \<Rightarrow> (real \<Rightarrow> real \<Rightarrow> real) \<Rightarrow> namespace \<Rightarrow> real \<Rightarrow> h2_estimate" where
  "summarize to_real factor ns h2_obs =
     \<lparr>observed = h2_obs,
      liability =
        (case (ns ''samp_prev'', ns ''pop_prev'') of
           (Some (PyStr p), Some (PyStr k)) \<Rightarrow>
             Some (liability_scale factor (to_real p) (to_real k) h2_obs)
         | _ \<Rightarrow> None)\<rparr>"

text \<open>
  Modelled from the spec: the LD Score Calculator and the regression stage are not among
  the source files. The spec says that the calculator emits, per category, M (the
  unweighted SNP count) and M_5_50 (the SNP count restricted to minor allele frequency
  above 0.05 and below 0.50), used downstream to normalize; the help text of
  \<^verbatim>\<open>--not-M-5-50\<close> in the source says that the flag makes LDSC use the M file instead of
  the M_5_50 file. \<open>maf\<close> gives a SNP's minor allele frequency and \<open>member c\<close> tells
  whether a SNP is in category \<open>c\<close>.
\<close>

record m_counts =
  M :: nat
  M_5_50 :: nat

definition emit_counts :: "('snp \<Rightarrow> real) \<Rightarrow> ('cat \<Rightarrow> 'snp \<Rightarrow> bool) \<Rightarrow> 'snp list \<Rightarrow> 'cat \<Rightarrow> m_counts" where
  "emit_counts maf member snps c =
     \<lparr>M = length (filter (member c) snps),
      M_5_50 = length (filter (\<lambda>s. member c s \<and> 5 / 100 < maf s \<and> maf s < 50 / 100) snps)\<rparr>"

definition normalizer :: "bool \<Rightarrow> m_counts \<Rightarrow> nat" where
  "normalizer not_M_5_50 counts = (if not_M_5_50 then M counts else M_5_50 counts)"

section \<open>Properties of the parser\<close>

lemma find_append_case:
  "find P (xs @ ys) = (case find P xs of None \<Rightarrow> find P ys | Some x \<Rightarrow> Some x)"
  by (induction xs) auto

lemma resolve_SomeD:
  "resolve acts f = Some a \<Longrightarrow> a \<in> set acts \<and> f \<in> set (option_strings a)"
  unfolding resolve_def by (induction acts) (auto split: if_splits)

lemma supplied_Nil [simp]: "supplied acts [] = {}"
  by (simp add: supplied_def)

lemma supplied_Cons:
  "supplied acts (occ # rest) =
     (case resolve acts (fst occ) of None \<Rightarrow> supplied acts rest
      | Some a \<Rightarrow> insert a (supplied acts rest))"
  by (auto simp: supplied_def split: option.splits)

lemma supplied_subset: "supplied acts occs \<subseteq> set acts"
  by (auto simp: supplied_def dest: resolve_SomeD)

lemma supplied_set: "set xs = set ys \<Longrightarrow> supplied acts xs = supplied acts ys"
  by (simp add: supplied_def)

lemma clash_sym: "clash a b = clash b a"
  unfolding clash_def by metis

lemma clash_irrefl: "\<not> clash a a"
  by (simp add: clash_def)

lemma conflict_None_iff:
  "conflict acts S a = None \<longleftrightarrow> (\<forall>b\<in>S \<inter> set acts. \<not> clash a b)"
  unfolding conflict_def clash_def by (auto simp: find_None_iff)

lemma call_action_Inr_iff:
  "(\<exists>ns'. call_action E a v ns = Inr ns') \<longleftrightarrow>
     action a \<noteq> print_help \<and> (action a \<noteq> ChecknBlocks \<or> n_blocks_check E v)"
  by (cases "action a") (auto simp: call_action_def)

lemma call_action_other:
  "call_action E a v ns = Inr ns' \<Longrightarrow> d \<noteq> dest a \<Longrightarrow> ns' d = ns d"
  by (cases "action a") (auto simp: call_action_def split: if_splits)

lemma take_action_unresolved:
  "resolve acts (fst occ) = None \<Longrightarrow>
   take_action E acts st occ =
     Inr (st\<lparr>extras := extras st @ fst occ # (case snd occ of None \<Rightarrow> [] | Some s \<Rightarrow> [s])\<rparr>)"
  by (simp add: take_action_def)

lemma take_action_Inr_iff:
  assumes "resolve acts (fst occ) = Some a"
  shows "(\<exists>st'. take_action E acts st occ = Inr st') \<longleftrightarrow>
           step_ok E a occ \<and> (\<forall>b\<in>seen_actions st \<inter> set acts. \<not> clash a b)"
proof (cases "get_values E a occ")
  case (Inl e)
  then show ?thesis using assms by (simp add: take_action_def step_ok_def)
next
  case (Inr v)
  show ?thesis
  proof (cases "conflict acts (seen_actions st) a")
    case None
    then have nc: "\<forall>b\<in>seen_actions st \<inter> set acts. \<not> clash a b"
      by (simp add: conflict_None_iff)
    show ?thesis
      using assms Inr None nc call_action_Inr_iff [of E a v "namespace st"]
      by (auto simp: take_action_def step_ok_def split: sum.splits)
  next
    case (Some b)
    then have "\<not> (\<forall>b\<in>seen_actions st \<inter> set acts. \<not> clash a b)"
      using conflict_None_iff [of acts "seen_actions st" a] by simp
    then show ?thesis using assms Inr Some by (simp add: take_action_def)
  qed
qed

lemma take_action_state:
  assumes "take_action E acts st occ = Inr st'"
  shows "seen_actions st' =
           (case resolve acts (fst occ) of None \<Rightarrow> seen_actions st
            | Some a \<Rightarrow> insert a (seen_actions st))"
    and "extras st' = [] \<longleftrightarrow> extras st = [] \<and> resolve acts (fst occ) \<noteq> None"
  using assms by (auto simp: take_action_def split: option.splits sum.splits)

lemma consume_seen:
  "consume E acts st occs = Inr st' \<Longrightarrow>
   seen_actions st' = seen_actions st \<union> supplied acts occs"
proof (induction occs arbitrary: st)
  case Nil
  then show ?case by simp
next
  case (Cons occ rest)
  then obtain st1 where s: "take_action E acts st occ = Inr st1"
    and r: "consume E acts st1 rest = Inr st'"
    by (auto split: sum.splits)
  show ?case
    using Cons.IH [OF r] take_action_state(1) [OF s]
    by (auto simp: supplied_Cons split: option.splits)
qed

lemma consume_extras:
  "consume E acts st occs = Inr st' \<Longrightarrow>
   extras st' = [] \<longleftrightarrow> extras st = [] \<and> (\<forall>occ\<in>set occs. resolve acts (fst occ) \<noteq> None)"
proof (induction occs arbitrary: st)
  case Nil
  then show ?case by simp
next
  case (Cons occ rest)
  then obtain st1 where s: "take_action E acts st occ = Inr st1"
    and r: "consume E acts st1 rest = Inr st'"
    by (auto split: sum.splits)
  show ?case
    using Cons.IH [OF r] take_action_state(2) [OF s] by auto
qed

lemma consume_Inr_iff:
  "(\<exists>st'. consume E acts st occs = Inr st') \<longleftrightarrow>
     steps_ok E acts occs \<and> clash_free (seen_actions st \<inter> set acts) (supplied acts occs)"
proof (induction occs arbitrary: st)
  case Nil
  then show ?case by (simp add: steps_ok_def clash_free_def)
next
  case (Cons occ rest)
  show ?case
  proof (cases "resolve acts (fst occ)")
    case None
    have "seen_actions (st\<lparr>extras := extras st @ fst occ # (case snd occ of None \<Rightarrow> [] | Some s \<Rightarrow> [s])\<rparr>) = seen_actions st"
      by simp
    then show ?thesis
      using None Cons.IH [of "st\<lparr>extras := extras st @ fst occ # (case snd occ of None \<Rightarrow> [] | Some s \<Rightarrow> [s])\<rparr>"]
      by (simp add: take_action_unresolved supplied_Cons steps_ok_def)
  next
    case (Some a)
    have a_in: "a \<in> set acts" using Some by (simp add: resolve_SomeD)
    have sup: "supplied acts (occ # rest) = insert a (supplied acts rest)"
      using Some by (simp add: supplied_Cons)
    have ok: "steps_ok E acts (occ # rest) \<longleftrightarrow> step_ok E a occ \<and> steps_ok E acts rest"
      using Some by (auto simp: steps_ok_def)
    have cf: "clash_free (seen_actions st \<inter> set acts) (insert a (supplied acts rest)) \<longleftrightarrow>
        (\<forall>b\<in>seen_actions st \<inter> set acts. \<not> clash a b) \<and>
        clash_free (insert a (seen_actions st) \<inter> set acts) (supplied acts rest)"
      unfolding clash_free_def using a_in clash_sym [of a] clash_irrefl [of a] by blast
    show ?thesis
    proof
      assume "\<exists>st'. consume E acts st (occ # rest) = Inr st'"
      then obtain st1 st' where s: "take_action E acts st occ = Inr st1"
        and r: "consume E acts st1 rest = Inr st'"
        by (auto split: sum.splits)
      have s1: "seen_actions st1 = insert a (seen_actions st)"
        using take_action_state(1) [OF s] Some by simp
      have "step_ok E a occ \<and> (\<forall>b\<in>seen_actions st \<inter> set acts. \<not> clash a b)"
        using take_action_Inr_iff [OF Some, of E st] s by blast
      moreover have "steps_ok E acts rest \<and>
          clash_free (insert a (seen_actions st) \<inter> set acts) (supplied acts rest)"
        using Cons.IH [of st1] r s1 by auto
      ultimately show "steps_ok E acts (occ # rest) \<and>
          clash_free (seen_actions st \<inter> set acts) (supplied acts (occ # rest))"
        using ok cf sup by simp
    next
      assume h: "steps_ok E acts (occ # rest) \<and>
          clash_free (seen_actions st \<inter> set acts) (supplied acts (occ # rest))"
      then have "step_ok E a occ \<and> (\<forall>b\<in>seen_actions st \<inter> set acts. \<not> clash a b)"
        using ok cf sup by simp
      then obtain st1 where s: "take_action E acts st occ = Inr st1"
        using take_action_Inr_iff [OF Some, of E st] by blast
      have s1: "seen_actions st1 = insert a (seen_actions st)"
        using take_action_state(1) [OF s] Some by simp
      have "\<exists>st'. consume E acts st1 rest = Inr st'"
        using Cons.IH [of st1] h ok cf sup s1 by simp
      then show "\<exists>st'. consume E acts st (occ # rest) = Inr st'"
        using s by simp
    qed
  qed
qed

lemma parse_args_Inr_iff:
  "(\<exists>ns. parse_args E acts f occs = Inr ns) \<longleftrightarrow>
     steps_ok E acts occs \<and> (\<forall>occ\<in>set occs. resolve acts (fst occ) \<noteq> None) \<and>
     clash_free {} (supplied acts occs) \<and>
     (\<forall>a\<in>set acts. required a \<longrightarrow> a \<in> supplied acts occs)"
proof -
  let ?st = "\<lparr>namespace = initial_namespace acts f, seen_actions = {}, extras = []\<rparr>"
  show ?thesis
  proof (cases "consume E acts ?st occs")
    case (Inl e)
    then have "\<not> (\<exists>st'. consume E acts ?st occs = Inr st')" by simp
    then have "\<not> (steps_ok E acts occs \<and> clash_free {} (supplied acts occs))"
      using consume_Inr_iff [of E acts ?st occs] by simp
    then show ?thesis using Inl by (auto simp: parse_args_def)
  next
    case (Inr st')
    have c: "steps_ok E acts occs \<and> clash_free {} (supplied acts occs)"
      using consume_Inr_iff [of E acts ?st occs] Inr by simp
    have seen: "seen_actions st' = supplied acts occs"
      using consume_seen [OF Inr] by simp
    have ex: "extras st' = [] \<longleftrightarrow> (\<forall>occ\<in>set occs. resolve acts (fst occ) \<noteq> None)"
      using consume_extras [OF Inr] by simp
    have req: "filter (\<lambda>a. required a \<and> a \<notin> seen_actions st') acts = [] \<longleftrightarrow>
        (\<forall>a\<in>set acts. required a \<longrightarrow> a \<in> supplied acts occs)"
      by (auto simp: filter_empty_conv seen)
    show ?thesis
    proof (cases "filter (\<lambda>a. required a \<and> a \<notin> seen_actions st') acts")
      case Nil
      then show ?thesis using Inr c ex req by (auto simp: parse_args_def)
    next
      case (Cons m ms)
      then show ?thesis using Inr req by (auto simp: parse_args_def)
    qed
  qed
qed

lemma parse_args_InrD:
  assumes "parse_args E acts f occs = Inr ns"
  shows "\<exists>st'. consume E acts
            \<lparr>namespace = initial_namespace acts f, seen_actions = {}, extras = []\<rparr> occs = Inr st'
          \<and> namespace st' = ns"
  using assms by (auto simp: parse_args_def split: sum.splits list.splits if_splits)

lemma take_action_namespace:
  assumes "take_action E acts st occ = Inr st'"
  shows "(resolve acts (fst occ) = None \<and> namespace st' = namespace st) \<or>
         (\<exists>a v. resolve acts (fst occ) = Some a \<and> get_values E a occ = Inr v \<and>
                call_action E a v (namespace st) = Inr (namespace st'))"
  using assms by (auto simp: take_action_def split: option.splits sum.splits)

lemma consume_dest_inv:
  assumes "consume E acts st occs = Inr st'"
    and "\<And>occ b v ns ns'. occ \<in> set occs \<Longrightarrow> resolve acts (fst occ) = Some b \<Longrightarrow> dest b = d \<Longrightarrow>
           get_values E b occ = Inr v \<Longrightarrow> call_action E b v ns = Inr ns' \<Longrightarrow> Q (ns' d)"
    and "Q (namespace st d) \<or> (\<exists>occ\<in>set occs. \<exists>b. resolve acts (fst occ) = Some b \<and> dest b = d)"
  shows "Q (namespace st' d)"
  using assms
proof (induction occs arbitrary: st)
  case Nil
  then show ?case by simp
next
  case (Cons occ rest)
  from Cons.prems(1) obtain st1 where s: "take_action E acts st occ = Inr st1"
    and r: "consume E acts st1 rest = Inr st'"
    by (auto split: sum.splits)
  have w: "Q (ns' d)"
    if "occ' \<in> set rest" "resolve acts (fst occ') = Some b" "dest b = d"
      "get_values E b occ' = Inr v" "call_action E b v ns = Inr ns'" for occ' b v ns ns'
    using Cons.prems(2) [of occ' b v ns ns'] that by simp
  have "Q (namespace st1 d) \<or> (\<exists>occ\<in>set rest. \<exists>b. resolve acts (fst occ) = Some b \<and> dest b = d)"
  proof (cases "\<exists>occ\<in>set rest. \<exists>b. resolve acts (fst occ) = Some b \<and> dest b = d")
    case True
    then show ?thesis by simp
  next
    case False
    with Cons.prems(3) have h: "Q (namespace st d) \<or> (\<exists>b. resolve acts (fst occ) = Some b \<and> dest b = d)"
      by auto
    from take_action_namespace [OF s] show ?thesis
    proof
      assume "resolve acts (fst occ) = None \<and> namespace st1 = namespace st"
      then show ?thesis using h by auto
    next
      assume "\<exists>a v. resolve acts (fst occ) = Some a \<and> get_values E a occ = Inr v \<and>
                call_action E a v (namespace st) = Inr (namespace st1)"
      then obtain a v where a: "resolve acts (fst occ) = Some a" "get_values E a occ = Inr v"
          "call_action E a v (namespace st) = Inr (namespace st1)" by blast
      show ?thesis
      proof (cases "dest a = d")
        case True
        then have "Q (namespace st1 d)"
          using Cons.prems(2) [of occ a v "namespace st" "namespace st1"] a by simp
        then show ?thesis by simp
      next
        case False
        then have "namespace st1 d = namespace st d"
          using call_action_other [OF a(3), of d] by simp
        then show ?thesis using h a(1) False by auto
      qed
    qed
  qed
  then show ?case
    by (rule Cons.IH [OF r, rotated]) (rule w)
qed

lemma declared_flags_eq:
  "declared_flags =
    [''-h'', ''--help'', ''--ref-ld'', ''--ref-ld-chr'', ''--w-ld'', ''--w-ld-chr'',
     ''--overlap-annot'', ''--print-coefficients'', ''--frqfile'', ''--frqfile-chr'',
     ''--no-intercept'', ''--intercept-h2'', ''--intercept-gencov'', ''--M'', ''--two-step'',
     ''--chisq-max'', ''--ref-ld-chr-cts'', ''--print-all-cts'', ''--print-cov'',
     ''--print-delete-vals'', ''--invert-anyway'', ''--n-blocks'', ''--not-M-5-50'',
     ''--no-check-alleles'', ''--samp-prev'', ''--pop-prev'', ''--rg'', ''--h2'', ''--h2-cts'',
     ''--bfile'', ''--l2'', ''--keep'', ''--cts-bin'', ''--cts-breaks'', ''--cts-names'',
     ''--thin-annot'', ''--extract'', ''--annot'', ''--maf'', ''--ld-wind-snps'',
     ''--ld-wind-kb'', ''--ld-wind-cm'', ''--yes-really'', ''--chunk-size'', ''--print-snps'',
     ''--no-print-annot'', ''--per-allele'', ''--pq-exp'']"
  by (simp add: declared_flags_def all_declared_def help_argument_def common_ldsc_parser_def rg_parser_def
      h2_parser_def h2_cts_parser_def ldscore_parser_def add_argument_def)

lemma declared_dests_eq:
  "declared_dests =
    [''help'', ''ref_ld'', ''ref_ld_chr'', ''w_ld'', ''w_ld_chr'',
     ''overlap_annot'', ''print_coefficients'', ''frqfile'', ''frqfile_chr'',
     ''no_intercept'', ''intercept_h2'', ''intercept_gencov'', ''M'', ''two_step'',
     ''chisq_max'', ''ref_ld_chr_cts'', ''print_all_cts'', ''print_cov'',
     ''print_delete_vals'', ''invert_anyway'', ''n_blocks'', ''not_M_5_50'',
     ''no_check_alleles'', ''samp_prev'', ''pop_prev'', ''rg'', ''h2'', ''h2_cts'',
     ''bfile'', ''l2'', ''keep'', ''cts_bin'', ''cts_breaks'', ''cts_names'',
     ''thin_annot'', ''extract'', ''annot'', ''maf'', ''ld_wind_snps'',
     ''ld_wind_kb'', ''ld_wind_cm'', ''yes_really'', ''chunk_size'', ''print_snps'',
     ''no_print_annot'', ''per_allele'', ''pq_exp'']"
  by (simp add: declared_dests_def all_declared_def help_argument_def common_ldsc_parser_def rg_parser_def
      h2_parser_def h2_cts_parser_def ldscore_parser_def add_argument_def get_dest_def)

lemma distinct_declared_flags: "distinct declared_flags"
  unfolding declared_flags_eq by simp

lemma distinct_declared_dests: "distinct declared_dests"
  unfolding declared_dests_eq by simp

lemma declared_subset: "set (declared cmd) \<subseteq> set all_declared"
  by (cases cmd) (simp_all add: declared_def all_declared_def subset_iff)

lemma subparser_set: "set (subparser E cmd) = set (declared cmd) \<union> set (parent_parser E)"
  by (auto simp: subparser_def declared_def)

lemma flag_unique_gen:
  fixes g :: "'a \<Rightarrow> 'b list"
  shows "distinct (concat (map g xs)) \<Longrightarrow> a \<in> set xs \<Longrightarrow> b \<in> set xs \<Longrightarrow>
   f \<in> set (g a) \<Longrightarrow> f \<in> set (g b) \<Longrightarrow> a = b"
  by (induction xs) auto

lemma dest_unique_gen:
  fixes g :: "'a \<Rightarrow> 'b"
  shows "distinct (map g xs) \<Longrightarrow> a \<in> set xs \<Longrightarrow> b \<in> set xs \<Longrightarrow> g a = g b \<Longrightarrow> a = b"
  by (auto simp: distinct_map inj_on_def)

lemma find_unique:
  fixes xs :: "'a list"
  assumes "a \<in> set xs" "P a" "\<forall>b\<in>set xs. P b \<longrightarrow> b = a"
  shows "find P xs = Some a"
proof -
  obtain x where "find P xs = Some x"
    using assms(1,2) by (cases "find P xs") (auto simp: find_None_iff)
  moreover from this have "x \<in> set xs \<and> P x"
    by (auto simp: find_Some_iff)
  ultimately show ?thesis using assms(3) by auto
qed

lemma parent_okD:
  assumes "parent_ok P" "b \<in> set P"
  shows "\<forall>f\<in>set (option_strings b). f \<notin> set declared_flags"
    and "dest b \<notin> set declared_dests"
    and "\<not> own_group (mutex b)"
  using assms by (auto simp: parent_ok_def list_all_iff)

lemma flag_in_declared_flags:
  "a \<in> set all_declared \<Longrightarrow> f \<in> set (option_strings a) \<Longrightarrow> f \<in> set declared_flags"
  by (auto simp: declared_flags_def)

lemma dest_in_declared_dests:
  "a \<in> set all_declared \<Longrightarrow> dest a \<in> set declared_dests"
  by (auto simp: declared_dests_def)

lemma resolve_declared:
  assumes ok: "parent_ok (parent_parser E)"
    and a: "a \<in> set (declared cmd)" and f: "f \<in> set (option_strings a)"
  shows "resolve (subparser E cmd) f = Some a"
proof -
  have a': "a \<in> set all_declared" using a declared_subset by blast
  have u: "b = a" if b: "b \<in> set (subparser E cmd)" and fb: "f \<in> set (option_strings b)" for b
  proof -
    have "b \<in> set (declared cmd)"
    proof (rule ccontr)
      assume "b \<notin> set (declared cmd)"
      then have "b \<in> set (parent_parser E)" using b by (simp add: subparser_set)
      then have "f \<notin> set declared_flags" using parent_okD(1) [OF ok] fb by blast
      then show False using flag_in_declared_flags [OF a' f] by simp
    qed
    then have b': "b \<in> set all_declared" using declared_subset by blast
    have d: "distinct (concat (map option_strings all_declared))"
      using distinct_declared_flags by (simp only: declared_flags_def)
    show "b = a" by (rule flag_unique_gen [OF d b' a' fb f])
  qed
  have m: "a \<in> set (subparser E cmd)" using a by (simp add: subparser_set)
  have "\<forall>b\<in>set (subparser E cmd). f \<in> set (option_strings b) \<longrightarrow> b = a"
    using u by blast
  then show ?thesis
    unfolding resolve_def
    using find_unique [of a "subparser E cmd" "\<lambda>a. f \<in> set (option_strings a)"] m f
    by blast
qed

lemma dest_declared_unique:
  assumes ok: "parent_ok (parent_parser E)"
    and a: "a \<in> set (declared cmd)" and b: "b \<in> set (subparser E cmd)" and d: "dest b = dest a"
  shows "b = a"
proof -
  have a': "a \<in> set all_declared" using a declared_subset by blast
  have "b \<in> set (declared cmd)"
  proof (rule ccontr)
    assume "b \<notin> set (declared cmd)"
    then have "b \<in> set (parent_parser E)" using b by (simp add: subparser_set)
    then have "dest b \<notin> set declared_dests" using parent_okD(2) [OF ok] by blast
    then show False using dest_in_declared_dests [OF a'] d by simp
  qed
  then have b': "b \<in> set all_declared" using declared_subset by blast
  have dd: "distinct (map dest all_declared)"
    using distinct_declared_dests by (simp only: declared_dests_def)
  show ?thesis by (rule dest_unique_gen [OF dd b' a' d])
qed

lemma own_group_declared:
  assumes ok: "parent_ok (parent_parser E)"
    and b: "b \<in> set (subparser E cmd)" and g: "own_group (mutex b)"
  shows "b \<in> set (declared cmd)"
  using parent_okD(3) [OF ok, of b] b g by (auto simp: subparser_set)

lemma supplied_declared_iff:
  assumes ok: "parent_ok (parent_parser E)" and a: "a \<in> set (declared cmd)"
  shows "a \<in> supplied (subparser E cmd) occs \<longleftrightarrow> (\<exists>f\<in>set (option_strings a). given f occs)"
proof
  assume "a \<in> supplied (subparser E cmd) occs"
  then obtain occ where "occ \<in> set occs" "resolve (subparser E cmd) (fst occ) = Some a"
    by (auto simp: supplied_def)
  then show "\<exists>f\<in>set (option_strings a). given f occs"
    using resolve_SomeD [of "subparser E cmd" "fst occ" a] by (auto simp: given_def)
next
  assume "\<exists>f\<in>set (option_strings a). given f occs"
  then obtain f occ where "f \<in> set (option_strings a)" "occ \<in> set occs" "fst occ = f"
    by (auto simp: given_def)
  then show "a \<in> supplied (subparser E cmd) occs"
    using resolve_declared [OF ok a, of f] by (auto simp: supplied_def)
qed

lemma add_default_keep: "ns d = Some v \<Longrightarrow> add_default ns kv d = Some v"
  by (auto simp: add_default_def)

lemma foldl_add_default_keep:
  "ns d = Some v \<Longrightarrow> foldl add_default ns kvs d = Some v"
proof (induction kvs arbitrary: ns)
  case Nil
  then show ?case by simp
next
  case (Cons kv kvs)
  have "foldl add_default (add_default ns kv) kvs d = Some v"
    by (rule Cons.IH) (rule add_default_keep [of ns d v kv, OF Cons.prems])
  then show ?case by simp
qed

lemma foldl_add_default_first:
  "ns d = None \<Longrightarrow> (d, v) \<in> set kvs \<Longrightarrow> v \<noteq> SUPPRESS \<Longrightarrow>
   \<forall>w. (d, w) \<in> set kvs \<longrightarrow> w = v \<Longrightarrow> foldl add_default ns kvs d = Some v"
proof (induction kvs arbitrary: ns)
  case Nil
  then show ?case by simp
next
  case (Cons kv kvs)
  show ?case
  proof (cases "fst kv = d")
    case True
    then have "snd kv = v" using Cons.prems(4) by (cases kv) auto
    then have "add_default ns kv d = Some v"
      using True Cons.prems(1,3) by (simp add: add_default_def)
    then show ?thesis by (simp add: foldl_add_default_keep)
  next
    case False
    then have n: "add_default ns kv d = None"
      using Cons.prems(1) by (simp add: add_default_def)
    have m: "(d, v) \<in> set kvs" using False Cons.prems(2) by auto
    have "foldl add_default (add_default ns kv) kvs d = Some v"
      using Cons.IH [of "add_default ns kv", OF n m Cons.prems(3)] Cons.prems(4) by simp
    then show ?thesis by simp
  qed
qed

lemma initial_namespace_dest:
  assumes a: "a \<in> set acts" and s: "dflt a \<noteq> SUPPRESS"
    and u: "\<forall>b\<in>set acts. dest b = dest a \<longrightarrow> b = a"
  shows "initial_namespace acts f (dest a) = Some (dflt a)"
proof -
  have m: "(dest a, dflt a) \<in> set (map (\<lambda>a. (dest a, dflt a)) acts)"
    using a by force
  have w: "\<forall>w. (dest a, w) \<in> set (map (\<lambda>a. (dest a, dflt a)) acts) \<longrightarrow> w = dflt a"
    using u by auto
  have "foldl add_default Map.empty (map (\<lambda>a. (dest a, dflt a)) acts) (dest a) = Some (dflt a)"
    by (rule foldl_add_default_first [of Map.empty, OF _ m s w]) simp
  then show ?thesis
    unfolding initial_namespace_def
    using add_default_keep [of "foldl add_default Map.empty (map (\<lambda>a. (dest a, dflt a)) acts)"
        "dest a" "dflt a" "(''func'', f)"]
    by simp
qed

lemma accepts_iff:
  "accepts E cmd occs \<longleftrightarrow>
     steps_ok E (subparser E cmd) occs \<and>
     (\<forall>occ\<in>set occs. resolve (subparser E cmd) (fst occ) \<noteq> None) \<and>
     clash_free {} (supplied (subparser E cmd) occs) \<and>
     (\<forall>a\<in>set (subparser E cmd). required a \<longrightarrow> a \<in> supplied (subparser E cmd) occs)"
proof -
  have "accepts E cmd occs \<longleftrightarrow> (\<exists>ns. parse_args E (subparser E cmd) (func cmd) occs = Inr ns)"
    by (cases "ldsc E cmd occs") (auto simp: accepts_def ldsc_def)
  then show ?thesis by (simp only: parse_args_Inr_iff)
qed

lemma accepts_ldsc: "accepts E cmd occs \<longleftrightarrow> (\<exists>ns. ldsc E cmd occs = Inr ns)"
  by (cases "ldsc E cmd occs") (auto simp: accepts_def)

lemma declared_groups:
  "list_all (\<lambda>a. mutex a = None \<or> own_group (mutex a)) all_declared"
  by (simp add: all_declared_def help_argument_def common_ldsc_parser_def rg_parser_def
      h2_parser_def h2_cts_parser_def ldscore_parser_def add_argument_def)

lemma declared_own_group:
  assumes "a \<in> set (declared cmd)" "mutex a \<noteq> None"
  shows "own_group (mutex a)"
proof -
  have "a \<in> set all_declared" using assms(1) declared_subset by blast
  then have "mutex a = None \<or> own_group (mutex a)"
    using declared_groups by (simp add: list_all_iff)
  then show ?thesis using assms(2) by simp
qed

lemma rejects_both:
  assumes ok: "parent_ok (parent_parser E)"
    and a: "a \<in> set (declared cmd)" and b: "b \<in> set (declared cmd)"
    and ab: "a \<noteq> b" "mutex a = mutex b" "mutex a \<noteq> None"
    and f: "f \<in> set (option_strings a)" "given f occs"
    and g: "g \<in> set (option_strings b)" "given g occs"
  shows "\<not> accepts E cmd occs"
proof
  assume "accepts E cmd occs"
  then have cf: "clash_free {} (supplied (subparser E cmd) occs)"
    by (simp add: accepts_iff)
  have sa: "a \<in> supplied (subparser E cmd) occs"
    using supplied_declared_iff [OF ok a] f by blast
  have sb: "b \<in> supplied (subparser E cmd) occs"
    using supplied_declared_iff [OF ok b] g by blast
  have "clash a b" using ab by (simp add: clash_def)
  then show False using cf sa sb by (auto simp: clash_free_def)
qed

lemma accepts_insert:
  assumes ok: "parent_ok (parent_parser E)"
    and acc: "accepts E cmd (xs @ ys)"
    and a: "a \<in> set (declared cmd)" and f: "f \<in> set (option_strings a)"
    and step: "step_ok E a (f, arg)"
    and excl: "\<And>b g. b \<in> set (declared cmd) \<Longrightarrow> b \<noteq> a \<Longrightarrow> mutex b = mutex a \<Longrightarrow>
                 mutex a \<noteq> None \<Longrightarrow> g \<in> set (option_strings b) \<Longrightarrow> \<not> given g (xs @ ys)"
  shows "accepts E cmd (xs @ (f, arg) # ys)"
proof -
  let ?acts = "subparser E cmd"
  let ?S = "supplied ?acts (xs @ ys)"
  have r: "resolve ?acts f = Some a" by (rule resolve_declared [OF ok a f])
  have sup: "supplied ?acts (xs @ (f, arg) # ys) = insert a ?S"
    using r by (auto simp: supplied_def)
  from acc have st: "steps_ok E ?acts (xs @ ys)"
    and res: "\<forall>occ\<in>set (xs @ ys). resolve ?acts (fst occ) \<noteq> None"
    and cf: "clash_free {} ?S"
    and req: "\<forall>a\<in>set ?acts. required a \<longrightarrow> a \<in> ?S"
    unfolding accepts_iff by blast+
  have st': "steps_ok E ?acts (xs @ (f, arg) # ys)"
    using st r step by (auto simp: steps_ok_def)
  have res': "\<forall>occ\<in>set (xs @ (f, arg) # ys). resolve ?acts (fst occ) \<noteq> None"
    using res r by auto
  have nc: "\<not> clash a b" if b: "b \<in> ?S" for b
  proof
    assume c: "clash a b"
    then have m: "a \<noteq> b" "mutex a \<noteq> None" "mutex a = mutex b"
      unfolding clash_def by blast+
    have "own_group (mutex b)" using declared_own_group [OF a m(2)] m(3) by simp
    moreover have "b \<in> set ?acts" using b supplied_subset by blast
    ultimately have bd: "b \<in> set (declared cmd)" by (rule own_group_declared [OF ok, rotated])
    then obtain g where "g \<in> set (option_strings b)" "given g (xs @ ys)"
      using supplied_declared_iff [OF ok bd, of "xs @ ys"] b by blast
    then show False using excl [OF bd] m by metis
  qed
  have cf': "clash_free {} (insert a ?S)"
    using cf nc clash_sym [of a] clash_irrefl [of a] unfolding clash_free_def by blast
  have req': "\<forall>b\<in>set ?acts. required b \<longrightarrow> b \<in> insert a ?S"
    using req by blast
  show ?thesis
    unfolding accepts_iff [of E cmd "xs @ (f, arg) # ys"] sup
    using st' res' cf' req' by blast
qed

lemma accepts_remove:
  assumes ok: "parent_ok (parent_parser E)"
    and acc: "accepts E cmd occs"
    and F: "\<And>f. f \<in> F \<Longrightarrow> \<exists>a\<in>set (declared cmd). f \<in> set (option_strings a) \<and> \<not> required a"
  shows "accepts E cmd (filter (\<lambda>occ. fst occ \<notin> F) occs)"
proof -
  let ?acts = "subparser E cmd"
  let ?occs = "filter (\<lambda>occ. fst occ \<notin> F) occs"
  from acc have st: "steps_ok E ?acts occs"
    and res: "\<forall>occ\<in>set occs. resolve ?acts (fst occ) \<noteq> None"
    and cf: "clash_free {} (supplied ?acts occs)"
    and req: "\<forall>a\<in>set ?acts. required a \<longrightarrow> a \<in> supplied ?acts occs"
    unfolding accepts_iff by blast+
  have sub: "supplied ?acts ?occs \<subseteq> supplied ?acts occs"
    by (force simp: supplied_def)
  have st': "steps_ok E ?acts ?occs" using st by (auto simp: steps_ok_def)
  have res': "\<forall>occ\<in>set ?occs. resolve ?acts (fst occ) \<noteq> None" using res by auto
  have cf': "clash_free {} (supplied ?acts ?occs)"
    using cf sub unfolding clash_free_def by blast
  have req': "b \<in> supplied ?acts ?occs" if b: "b \<in> set ?acts" "required b" for b
  proof -
    from req b obtain occ where o: "occ \<in> set occs" "resolve ?acts (fst occ) = Some b"
      by (auto simp: supplied_def)
    have "fst occ \<notin> F"
    proof
      assume "fst occ \<in> F"
      then obtain a where a: "a \<in> set (declared cmd)" "fst occ \<in> set (option_strings a)"
        "\<not> required a" using F by blast
      have "resolve ?acts (fst occ) = Some a" by (rule resolve_declared [OF ok a(1,2)])
      then show False using o(2) a(3) b(2) by simp
    qed
    then have "occ \<in> set ?occs" using o(1) by simp
    then show ?thesis using o(2) unfolding supplied_def by blast
  qed
  show ?thesis
    unfolding accepts_iff [of E cmd ?occs] using st' res' cf' req' by blast
qed

lemma add_argument_simps [simp]:
  "option_strings (add_argument g flag d t a r) = [flag]"
  "dest (add_argument g flag d t a r) = get_dest [flag]"
  "dflt (add_argument g flag d t a r) = d"
  "conv (add_argument g flag d t a r) = t"
  "action (add_argument g flag d t a r) = a"
  "required (add_argument g flag d t a r) = r"
  "mutex (add_argument g flag d t a r) = g"
  by (simp_all add: add_argument_def)

lemma help_argument_simps [simp]:
  "option_strings help_argument = [''-h'', ''--help'']"
  "mutex help_argument = None"
  "required help_argument = False"
  "action help_argument = print_help"
  by (simp_all add: help_argument_def)

lemma common_declared: "a \<in> set common_ldsc_parser \<Longrightarrow> a \<in> set (declared cmd)"
  by (simp add: declared_def)

lemma ldscore_declared: "a \<in> set ldscore_parser \<Longrightarrow> a \<in> set (declared generate_ldscores)"
  by (simp add: declared_def)

lemma step_ok_store:
  "action a = store \<Longrightarrow> get_value E (conv a) s = Some v \<Longrightarrow> step_ok E a (f, Some s)"
  by (simp add: step_ok_def get_values_def nargs0_def)

lemma step_ok_store_true:
  "action a = store_true \<Longrightarrow> step_ok E a (f, None)"
  by (simp add: step_ok_def get_values_def nargs0_def)

lemma example_env_ok: "parent_ok (parent_parser example_env)"
  by (simp add: example_env_def parent_ok_def declared_flags_eq declared_dests_eq get_dest_def)

text \<open>
  C1. The three window options are declared without a mutually exclusive group: an
  accepted invocation stays accepted when all three window sizes are added to it.
\<close>

theorem window_units_not_exclusive:
  assumes "parent_ok (parent_parser E)"
  shows "accepts E generate_ldscores (xs @ ys) \<and> py_int E s = Some n \<and> py_float E k \<and> py_float E c \<longrightarrow>
         accepts E generate_ldscores
           (xs @ (''--ld-wind-snps'', Some s) # (''--ld-wind-kb'', Some k) #
              (''--ld-wind-cm'', Some c) # ys)"
proof (intro impI, elim conjE)
  assume acc: "accepts E generate_ldscores (xs @ ys)"
    and s: "py_int E s = Some n" and k: "py_float E k" and c: "py_float E c"
  let ?snps = "add_argument None ''--ld-wind-snps'' PyNone type_int store False"
  let ?kb = "add_argument None ''--ld-wind-kb'' PyNone type_float store False"
  let ?cm = "add_argument None ''--ld-wind-cm'' PyNone type_float store False"
  have d: "?snps \<in> set (declared generate_ldscores)" "?kb \<in> set (declared generate_ldscores)"
    "?cm \<in> set (declared generate_ldscores)"
    by (rule ldscore_declared, simp add: ldscore_parser_def)+
  have 1: "accepts E generate_ldscores (xs @ (''--ld-wind-cm'', Some c) # ys)"
    by (rule accepts_insert [OF assms acc d(3)]) (simp_all add: step_ok_store c)
  have 2: "accepts E generate_ldscores (xs @ (''--ld-wind-kb'', Some k) # (''--ld-wind-cm'', Some c) # ys)"
    by (rule accepts_insert [OF assms 1 d(2)]) (simp_all add: step_ok_store k)
  show "accepts E generate_ldscores
           (xs @ (''--ld-wind-snps'', Some s) # (''--ld-wind-kb'', Some k) #
              (''--ld-wind-cm'', Some c) # ys)"
    by (rule accepts_insert [OF assms 2 d(1)]) (simp_all add: step_ok_store s)
qed

theorem window_units_not_exclusive_witness:
  "parent_ok (parent_parser example_env) \<and>
   accepts example_env generate_ldscores [(''--bfile'', Some ''geno''), (''--l2'', None)] \<and>
   py_int example_env ''10'' = Some 10 \<and> py_float example_env ''1.5'' \<and>
   py_float example_env ''0.5'' \<and>
   accepts example_env generate_ldscores
     [(''--bfile'', Some ''geno''), (''--ld-wind-snps'', Some ''10''),
      (''--ld-wind-kb'', Some ''1.5''), (''--ld-wind-cm'', Some ''0.5''), (''--l2'', None)]"
proof -
  have a: "accepts example_env generate_ldscores ([(''--bfile'', Some ''geno'')] @ [(''--l2'', None)])"
    by code_simp
  have s: "py_int example_env ''10'' = Some 10" by code_simp
  have k: "py_float example_env ''1.5''" by code_simp
  have c: "py_float example_env ''0.5''" by code_simp
  show ?thesis
    using window_units_not_exclusive [OF example_env_ok, of "[(''--bfile'', Some ''geno'')]"
        "[(''--l2'', None)]" "''10''" 10 "''1.5''" "''0.5''"] a s k c example_env_ok
    by simp
qed

lemma annot_extract_members:
  "filter (\<lambda>b. mutex b = Some annot_extract_group) (declared generate_ldscores) =
     [add_argument (Some annot_extract_group) ''--extract'' PyNone type_str store False,
      add_argument (Some annot_extract_group) ''--annot'' PyNone type_str store False]"
  by (simp add: declared_def common_ldsc_parser_def ldscore_parser_def)

lemma per_allele_pq_exp_members:
  "filter (\<lambda>b. mutex b = Some per_allele_pq_exp_group) (declared generate_ldscores) =
     [add_argument (Some per_allele_pq_exp_group) ''--per-allele'' (PyBool False) type_unset
        store_true False,
      add_argument (Some per_allele_pq_exp_group) ''--pq-exp'' PyNone type_float store False]"
  by (simp add: declared_def common_ldsc_parser_def ldscore_parser_def)

lemma group_members:
  assumes "filter (\<lambda>b. mutex b = g) (declared cmd) = [x, y]"
    and "b \<in> set (declared cmd)" and "mutex b = g"
  shows "b = x \<or> b = y"
proof -
  have "b \<in> set (filter (\<lambda>b. mutex b = g) (declared cmd))" using assms(2,3) by simp
  then show ?thesis by (simp only: assms(1)) simp
qed

lemma distinct_flags_distinct_args:
  "option_strings a = [f] \<Longrightarrow> option_strings b = [g] \<Longrightarrow> f \<noteq> g \<Longrightarrow> a \<noteq> b"
  by auto

text \<open>
  C8. In a \<^verbatim>\<open>generate-ldscores\<close> invocation \<^verbatim>\<open>--extract\<close> and \<^verbatim>\<open>--annot\<close> exclude each other:
  an invocation that supplies both is not accepted, and the group rejects nothing else.
  Adding \<^verbatim>\<open>--extract\<close> to an accepted invocation without \<^verbatim>\<open>--annot\<close> (or \<^verbatim>\<open>--annot\<close> to one
  without \<^verbatim>\<open>--extract\<close>) leaves it accepted, and so does removing both options.
\<close>

theorem extract_annot_mutually_exclusive:
  assumes "parent_ok (parent_parser E)"
  shows
    "(given ''--extract'' occs \<and> given ''--annot'' occs \<longrightarrow> \<not> accepts E generate_ldscores occs) \<and>
     (accepts E generate_ldscores (xs @ ys) \<and> \<not> given ''--annot'' (xs @ ys) \<longrightarrow>
        accepts E generate_ldscores (xs @ (''--extract'', Some x) # ys)) \<and>
     (accepts E generate_ldscores (xs @ ys) \<and> \<not> given ''--extract'' (xs @ ys) \<longrightarrow>
        accepts E generate_ldscores (xs @ (''--annot'', Some y) # ys)) \<and>
     (accepts E generate_ldscores occs \<longrightarrow>
        accepts E generate_ldscores
          (filter (\<lambda>occ. fst occ \<notin> {''--extract'', ''--annot''}) occs))"
proof -
  let ?ext = "add_argument (Some annot_extract_group) ''--extract'' PyNone type_str store False"
  let ?ann = "add_argument (Some annot_extract_group) ''--annot'' PyNone type_str store False"
  have d: "?ext \<in> set (declared generate_ldscores)" "?ann \<in> set (declared generate_ldscores)"
    by (rule ldscore_declared, simp add: ldscore_parser_def)+
  have ne: "?ext \<noteq> ?ann"
    by (rule distinct_flags_distinct_args [of _ "''--extract''" _ "''--annot''"]) simp_all
  have both: "\<not> accepts E generate_ldscores occs"
    if "given ''--extract'' occs" "given ''--annot'' occs"
    by (rule rejects_both [OF assms d ne, of "''--extract''" occs "''--annot''"])
      (simp_all add: that)
  have mem: "b = ?ext \<or> b = ?ann"
    if "b \<in> set (declared generate_ldscores)" "mutex b = Some annot_extract_group" for b
    by (rule group_members [OF annot_extract_members that])
  have ins_ext: "accepts E generate_ldscores (xs @ (''--extract'', Some x) # ys)"
    if acc: "accepts E generate_ldscores (xs @ ys)" and n: "\<not> given ''--annot'' (xs @ ys)"
  proof (rule accepts_insert [OF assms acc d(1)])
    show "''--extract'' \<in> set (option_strings ?ext)" by simp
    show "step_ok E ?ext (''--extract'', Some x)" by (simp add: step_ok_store)
    fix b g
    assume "b \<in> set (declared generate_ldscores)" "b \<noteq> ?ext" "mutex b = mutex ?ext"
      "g \<in> set (option_strings b)"
    then have "b = ?ann" using mem [of b] by auto
    then show "\<not> given g (xs @ ys)" using n \<open>g \<in> set (option_strings b)\<close> by simp
  qed
  have ins_ann: "accepts E generate_ldscores (xs @ (''--annot'', Some y) # ys)"
    if acc: "accepts E generate_ldscores (xs @ ys)" and n: "\<not> given ''--extract'' (xs @ ys)"
  proof (rule accepts_insert [OF assms acc d(2)])
    show "''--annot'' \<in> set (option_strings ?ann)" by simp
    show "step_ok E ?ann (''--annot'', Some y)" by (simp add: step_ok_store)
    fix b g
    assume "b \<in> set (declared generate_ldscores)" "b \<noteq> ?ann" "mutex b = mutex ?ann"
      "g \<in> set (option_strings b)"
    then have "b = ?ext" using mem [of b] by auto
    then show "\<not> given g (xs @ ys)" using n \<open>g \<in> set (option_strings b)\<close> by simp
  qed
  have rem: "accepts E generate_ldscores
          (filter (\<lambda>occ. fst occ \<notin> {''--extract'', ''--annot''}) occs)"
    if acc: "accepts E generate_ldscores occs"
  proof (rule accepts_remove [OF assms acc])
    fix f :: string assume "f \<in> {''--extract'', ''--annot''}"
    then consider "f = ''--extract''" | "f = ''--annot''" by blast
    then show "\<exists>a\<in>set (declared generate_ldscores). f \<in> set (option_strings a) \<and> \<not> required a"
    proof cases
      case 1
      then show ?thesis using d(1) by (intro bexI [of _ ?ext]) simp_all
    next
      case 2
      then show ?thesis using d(2) by (intro bexI [of _ ?ann]) simp_all
    qed
  qed
  show ?thesis using both ins_ext ins_ann rem by blast
qed

theorem extract_annot_mutually_exclusive_witness:
  "parent_ok (parent_parser example_env) \<and>
   given ''--extract'' [(''--bfile'', Some ''geno''), (''--extract'', Some ''snps.txt''),
      (''--annot'', Some ''base''), (''--l2'', None)] \<and>
   given ''--annot'' [(''--bfile'', Some ''geno''), (''--extract'', Some ''snps.txt''),
      (''--annot'', Some ''base''), (''--l2'', None)] \<and>
   \<not> accepts example_env generate_ldscores
      [(''--bfile'', Some ''geno''), (''--extract'', Some ''snps.txt''),
       (''--annot'', Some ''base''), (''--l2'', None)] \<and>
   accepts example_env generate_ldscores [(''--bfile'', Some ''geno''), (''--l2'', None)] \<and>
   \<not> given ''--annot'' [(''--bfile'', Some ''geno''), (''--l2'', None)] \<and>
   \<not> given ''--extract'' [(''--bfile'', Some ''geno''), (''--l2'', None)] \<and>
   accepts example_env generate_ldscores
      [(''--bfile'', Some ''geno''), (''--extract'', Some ''snps.txt''), (''--l2'', None)] \<and>
   accepts example_env generate_ldscores
      [(''--bfile'', Some ''geno''), (''--annot'', Some ''base''), (''--l2'', None)]"
proof -
  let ?both = "[(''--bfile'', Some ''geno''), (''--extract'', Some ''snps.txt''),
      (''--annot'', Some ''base''), (''--l2'', None)]"
  have g: "given ''--extract'' ?both" "given ''--annot'' ?both"
    by (simp_all add: given_def)
  have n: "\<not> given ''--annot'' ([(''--bfile'', Some ''geno'')] @ [(''--l2'', None)])"
    "\<not> given ''--extract'' ([(''--bfile'', Some ''geno'')] @ [(''--l2'', None)])"
    by (simp_all add: given_def)
  have a: "accepts example_env generate_ldscores
      ([(''--bfile'', Some ''geno'')] @ [(''--l2'', None)])"
    by code_simp
  show ?thesis
    using extract_annot_mutually_exclusive [OF example_env_ok, of ?both
        "[(''--bfile'', Some ''geno'')]" "[(''--l2'', None)]" "''snps.txt''" "''base''"]
      g n a example_env_ok
    by simp
qed

text \<open>
  C2. In a \<^verbatim>\<open>generate-ldscores\<close> invocation \<^verbatim>\<open>--per-allele\<close> and \<^verbatim>\<open>--pq-exp\<close> exclude each
  other: an invocation that supplies both is not accepted. Supplying at most one is
  accepted: adding \<^verbatim>\<open>--per-allele\<close> to an accepted invocation without \<^verbatim>\<open>--pq-exp\<close>, adding
  \<^verbatim>\<open>--pq-exp\<close> with an exponent that \<^verbatim>\<open>float\<close> reads to one without \<^verbatim>\<open>--per-allele\<close>, or
  removing both options, leaves the invocation accepted.
\<close>

theorem per_allele_pq_exp_mutually_exclusive:
  assumes "parent_ok (parent_parser E)"
  shows
    "(given ''--per-allele'' occs \<and> given ''--pq-exp'' occs \<longrightarrow>
        \<not> accepts E generate_ldscores occs) \<and>
     (accepts E generate_ldscores (xs @ ys) \<and> \<not> given ''--pq-exp'' (xs @ ys) \<longrightarrow>
        accepts E generate_ldscores (xs @ (''--per-allele'', None) # ys)) \<and>
     (accepts E generate_ldscores (xs @ ys) \<and> \<not> given ''--per-allele'' (xs @ ys) \<and>
      py_float E a \<longrightarrow>
        accepts E generate_ldscores (xs @ (''--pq-exp'', Some a) # ys)) \<and>
     (accepts E generate_ldscores occs \<longrightarrow>
        accepts E generate_ldscores
          (filter (\<lambda>occ. fst occ \<notin> {''--per-allele'', ''--pq-exp''}) occs))"
proof -
  let ?pa = "add_argument (Some per_allele_pq_exp_group) ''--per-allele'' (PyBool False)
      type_unset store_true False"
  let ?pq = "add_argument (Some per_allele_pq_exp_group) ''--pq-exp'' PyNone type_float store False"
  have d: "?pa \<in> set (declared generate_ldscores)" "?pq \<in> set (declared generate_ldscores)"
    by (rule ldscore_declared, simp add: ldscore_parser_def)+
  have ne: "?pa \<noteq> ?pq"
    by (rule distinct_flags_distinct_args [of _ "''--per-allele''" _ "''--pq-exp''"]) simp_all
  have both: "\<not> accepts E generate_ldscores occs"
    if "given ''--per-allele'' occs" "given ''--pq-exp'' occs"
    by (rule rejects_both [OF assms d ne, of "''--per-allele''" occs "''--pq-exp''"])
      (simp_all add: that)
  have mem: "b = ?pa \<or> b = ?pq"
    if "b \<in> set (declared generate_ldscores)" "mutex b = Some per_allele_pq_exp_group" for b
    by (rule group_members [OF per_allele_pq_exp_members that])
  have ins_pa: "accepts E generate_ldscores (xs @ (''--per-allele'', None) # ys)"
    if acc: "accepts E generate_ldscores (xs @ ys)" and n: "\<not> given ''--pq-exp'' (xs @ ys)"
  proof (rule accepts_insert [OF assms acc d(1)])
    show "''--per-allele'' \<in> set (option_strings ?pa)" by simp
    show "step_ok E ?pa (''--per-allele'', None)" by (simp add: step_ok_store_true)
    fix b g
    assume "b \<in> set (declared generate_ldscores)" "b \<noteq> ?pa" "mutex b = mutex ?pa"
      "g \<in> set (option_strings b)"
    then have "b = ?pq" using mem [of b] by auto
    then show "\<not> given g (xs @ ys)" using n \<open>g \<in> set (option_strings b)\<close> by simp
  qed
  have ins_pq: "accepts E generate_ldscores (xs @ (''--pq-exp'', Some a) # ys)"
    if acc: "accepts E generate_ldscores (xs @ ys)" and n: "\<not> given ''--per-allele'' (xs @ ys)"
      and fl: "py_float E a"
  proof (rule accepts_insert [OF assms acc d(2)])
    show "''--pq-exp'' \<in> set (option_strings ?pq)" by simp
    show "step_ok E ?pq (''--pq-exp'', Some a)" by (simp add: step_ok_store fl)
    fix b g
    assume "b \<in> set (declared generate_ldscores)" "b \<noteq> ?pq" "mutex b = mutex ?pq"
      "g \<in> set (option_strings b)"
    then have "b = ?pa" using mem [of b] by auto
    then show "\<not> given g (xs @ ys)" using n \<open>g \<in> set (option_strings b)\<close> by simp
  qed
  have rem: "accepts E generate_ldscores
          (filter (\<lambda>occ. fst occ \<notin> {''--per-allele'', ''--pq-exp''}) occs)"
    if acc: "accepts E generate_ldscores occs"
  proof (rule accepts_remove [OF assms acc])
    fix f :: string assume "f \<in> {''--per-allele'', ''--pq-exp''}"
    then consider "f = ''--per-allele''" | "f = ''--pq-exp''" by blast
    then show "\<exists>a\<in>set (declared generate_ldscores). f \<in> set (option_strings a) \<and> \<not> required a"
    proof cases
      case 1
      then show ?thesis using d(1) by (intro bexI [of _ ?pa]) simp_all
    next
      case 2
      then show ?thesis using d(2) by (intro bexI [of _ ?pq]) simp_all
    qed
  qed
  show ?thesis using both ins_pa ins_pq rem by blast
qed

theorem per_allele_pq_exp_mutually_exclusive_witness:
  "parent_ok (parent_parser example_env) \<and>
   given ''--per-allele'' [(''--bfile'', Some ''geno''), (''--per-allele'', None),
      (''--pq-exp'', Some ''0.5''), (''--l2'', None)] \<and>
   given ''--pq-exp'' [(''--bfile'', Some ''geno''), (''--per-allele'', None),
      (''--pq-exp'', Some ''0.5''), (''--l2'', None)] \<and>
   \<not> accepts example_env generate_ldscores
      [(''--bfile'', Some ''geno''), (''--per-allele'', None),
       (''--pq-exp'', Some ''0.5''), (''--l2'', None)] \<and>
   accepts example_env generate_ldscores [(''--bfile'', Some ''geno''), (''--l2'', None)] \<and>
   \<not> given ''--pq-exp'' [(''--bfile'', Some ''geno''), (''--l2'', None)] \<and>
   \<not> given ''--per-allele'' [(''--bfile'', Some ''geno''), (''--l2'', None)] \<and>
   py_float example_env ''0.5'' \<and>
   accepts example_env generate_ldscores
      [(''--bfile'', Some ''geno''), (''--per-allele'', None), (''--l2'', None)] \<and>
   accepts example_env generate_ldscores
      [(''--bfile'', Some ''geno''), (''--pq-exp'', Some ''0.5''), (''--l2'', None)]"
proof -
  let ?both = "[(''--bfile'', Some ''geno''), (''--per-allele'', None),
      (''--pq-exp'', Some ''0.5''), (''--l2'', None)]"
  have g: "given ''--per-allele'' ?both" "given ''--pq-exp'' ?both"
    by (simp_all add: given_def)
  have n: "\<not> given ''--pq-exp'' ([(''--bfile'', Some ''geno'')] @ [(''--l2'', None)])"
    "\<not> given ''--per-allele'' ([(''--bfile'', Some ''geno'')] @ [(''--l2'', None)])"
    by (simp_all add: given_def)
  have a: "accepts example_env generate_ldscores
      ([(''--bfile'', Some ''geno'')] @ [(''--l2'', None)])"
    by code_simp
  have fl: "py_float example_env ''0.5''" by code_simp
  show ?thesis
    using per_allele_pq_exp_mutually_exclusive [OF example_env_ok, of ?both
        "[(''--bfile'', Some ''geno'')]" "[(''--l2'', None)]" "''0.5''"]
      g n a fl example_env_ok
    by simp
qed

lemma ldsc_consume:
  assumes "ldsc E cmd occs = Inr ns"
  shows "\<exists>st'. consume E (subparser E cmd)
            \<lparr>namespace = initial_namespace (subparser E cmd) (func cmd), seen_actions = {},
             extras = []\<rparr> occs = Inr st' \<and> namespace st' = ns"
  using assms parse_args_InrD [of E "subparser E cmd" "func cmd" occs ns]
  by (simp add: ldsc_def)

lemma untouched_default:
  assumes ok: "parent_ok (parent_parser E)"
    and r: "ldsc E cmd occs = Inr ns"
    and a: "a \<in> set (declared cmd)" and s: "dflt a \<noteq> SUPPRESS"
    and n: "\<forall>f\<in>set (option_strings a). \<not> given f occs"
  shows "ns (dest a) = Some (dflt a)"
proof -
  let ?acts = "subparser E cmd"
  let ?st = "\<lparr>namespace = initial_namespace ?acts (func cmd), seen_actions = {}, extras = []\<rparr>"
  from ldsc_consume [OF r] obtain st' where c: "consume E ?acts ?st occs = Inr st'"
    and ns: "namespace st' = ns" by blast
  have u: "\<forall>b\<in>set ?acts. dest b = dest a \<longrightarrow> b = a"
    using dest_declared_unique [OF ok a] by blast
  have a': "a \<in> set ?acts" using a by (simp add: subparser_set)
  have i: "namespace ?st (dest a) = Some (dflt a)"
    using initial_namespace_dest [OF a' s u] by simp
  have nw: "\<not> (\<exists>occ\<in>set occs. \<exists>b. resolve ?acts (fst occ) = Some b \<and> dest b = dest a)"
  proof
    assume "\<exists>occ\<in>set occs. \<exists>b. resolve ?acts (fst occ) = Some b \<and> dest b = dest a"
    then obtain occ b where o: "occ \<in> set occs" "resolve ?acts (fst occ) = Some b" "dest b = dest a"
      by blast
    have "b \<in> set ?acts" "fst occ \<in> set (option_strings b)"
      using resolve_SomeD [OF o(2)] by simp_all
    then have "b = a" "fst occ \<in> set (option_strings b)" using u o(3) by simp_all
    then have "\<exists>f\<in>set (option_strings a). given f occs"
      using o(1) by (auto simp: given_def)
    then show False using n by blast
  qed
  have "namespace st' (dest a) = Some (dflt a)"
  proof (rule consume_dest_inv [OF c, where Q = "\<lambda>x. x = Some (dflt a)"])
    fix occ b v ns0 ns'
    assume "occ \<in> set occs" "resolve ?acts (fst occ) = Some b" "dest b = dest a"
    then show "ns' (dest a) = Some (dflt a)" using nw by blast
  next
    show "namespace ?st (dest a) = Some (dflt a) \<or>
      (\<exists>occ\<in>set occs. \<exists>b. resolve ?acts (fst occ) = Some b \<and> dest b = dest a)"
      using i by blast
  qed
  then show ?thesis using ns by simp
qed

lemma written_value:
  assumes ok: "parent_ok (parent_parser E)"
    and r: "ldsc E cmd occs = Inr ns"
    and a: "a \<in> set (declared cmd)" and f: "f \<in> set (option_strings a)" and g: "given f occs"
    and w: "\<And>occ v ns0 ns'. occ \<in> set occs \<Longrightarrow> fst occ \<in> set (option_strings a) \<Longrightarrow>
              get_values E a occ = Inr v \<Longrightarrow> call_action E a v ns0 = Inr ns' \<Longrightarrow> Q (ns' (dest a))"
  shows "Q (ns (dest a))"
proof -
  let ?acts = "subparser E cmd"
  let ?st = "\<lparr>namespace = initial_namespace ?acts (func cmd), seen_actions = {}, extras = []\<rparr>"
  from ldsc_consume [OF r] obtain st' where c: "consume E ?acts ?st occs = Inr st'"
    and ns: "namespace st' = ns" by blast
  from g obtain occ where o: "occ \<in> set occs" "fst occ = f" by (auto simp: given_def)
  have ra: "resolve ?acts (fst occ) = Some a"
    using resolve_declared [OF ok a f] o(2) by simp
  have "Q (namespace st' (dest a))"
  proof (rule consume_dest_inv [OF c, where Q = Q])
    fix occ b v ns0 ns'
    assume h: "occ \<in> set occs" "resolve ?acts (fst occ) = Some b" "dest b = dest a"
      "get_values E b occ = Inr v" "call_action E b v ns0 = Inr ns'"
    have "b \<in> set ?acts" "fst occ \<in> set (option_strings b)"
      using resolve_SomeD [OF h(2)] by simp_all
    moreover from this have "b = a" using dest_declared_unique [OF ok a _ h(3)] by simp
    ultimately show "Q (ns' (dest a))" using w [of occ v ns0 ns'] h by simp
  next
    show "Q (namespace ?st (dest a)) \<or>
      (\<exists>occ\<in>set occs. \<exists>b. resolve ?acts (fst occ) = Some b \<and> dest b = dest a)"
      using o(1) ra by blast
  qed
  then show ?thesis using ns by simp
qed

lemma flag_value:
  assumes ok: "parent_ok (parent_parser E)"
    and r: "ldsc E cmd occs = Inr ns"
    and a: "add_argument g f (PyBool False) type_unset store_true False \<in> set (declared cmd)"
  shows "ns (get_dest [f]) = Some (PyBool (given f occs))"
proof (cases "given f occs")
  case True
  let ?a = "add_argument g f (PyBool False) type_unset store_true False"
  have "ns (dest ?a) = Some (PyBool True)"
  proof (rule written_value [OF ok r a _ True, where Q = "\<lambda>x. x = Some (PyBool True)"])
    show "f \<in> set (option_strings ?a)" by simp
  next
    fix occ v ns0 ns'
    assume "call_action E ?a v ns0 = Inr ns'"
    then show "ns' (dest ?a) = Some (PyBool True)"
      by (auto simp: call_action_def)
  qed
  then show ?thesis using True by simp
next
  case False
  let ?a = "add_argument g f (PyBool False) type_unset store_true False"
  have "ns (dest ?a) = Some (dflt ?a)"
    by (rule untouched_default [OF ok r a]) (simp_all add: False)
  then show ?thesis using False by simp
qed

lemma required_given:
  assumes ok: "parent_ok (parent_parser E)"
    and acc: "accepts E cmd occs"
    and a: "a \<in> set (declared cmd)" and q: "required a" and f: "option_strings a = [f]"
  shows "given f occs"
proof -
  have "a \<in> set (subparser E cmd)" using a by (simp add: subparser_set)
  then have "a \<in> supplied (subparser E cmd) occs"
    using acc q unfolding accepts_iff by blast
  then show ?thesis using supplied_declared_iff [OF ok a, of occs] f by simp
qed


lemma ref_ld_members:
  "filter (\<lambda>b. mutex b = Some ref_ld_group) (declared cmd) =
     [add_argument (Some ref_ld_group) ''--ref-ld'' PyNone type_str store False,
      add_argument (Some ref_ld_group) ''--ref-ld-chr'' (Path '''') type_Path store False]"
  by (cases cmd)
    (simp_all add: declared_def common_ldsc_parser_def ldscore_parser_def rg_parser_def
      h2_parser_def h2_cts_parser_def)

lemma common_dests:
  "get_dest [''--ref-ld''] = ''ref_ld''"
  "get_dest [''--ref-ld-chr''] = ''ref_ld_chr''"
  "get_dest [''--w-ld-chr''] = ''w_ld_chr''"
  "get_dest [''--n-blocks''] = ''n_blocks''"
  "get_dest [''--invert-anyway''] = ''invert_anyway''"
  "get_dest [''--not-M-5-50''] = ''not_M_5_50''"
  "get_dest [''--no-check-alleles''] = ''no_check_alleles''"
  "get_dest [''--samp-prev''] = ''samp_prev''"
  "get_dest [''--pop-prev''] = ''pop_prev''"
  "get_dest [''--bfile''] = ''bfile''"
  "get_dest [''--l2''] = ''l2''"
  by (simp_all add: get_dest_def)

text \<open>
  C10. For every subcommand \<^verbatim>\<open>--ref-ld\<close> and \<^verbatim>\<open>--ref-ld-chr\<close> exclude each other: an
  invocation that supplies both is not accepted. Their defaults differ: in an accepted
  configuration \<^verbatim>\<open>ref_ld\<close> is \<^verbatim>\<open>None\<close> when \<^verbatim>\<open>--ref-ld\<close> is not given, \<^verbatim>\<open>ref_ld_chr\<close> is the
  empty path \<^verbatim>\<open>Path("")\<close> when \<^verbatim>\<open>--ref-ld-chr\<close> is not given, and \<^verbatim>\<open>w_ld_chr\<close> is \<^verbatim>\<open>None\<close> when
  \<^verbatim>\<open>--w-ld-chr\<close> is not given.
\<close>

theorem ref_ld_exclusive_and_defaults:
  assumes "parent_ok (parent_parser E)"
  shows
    "(given ''--ref-ld'' occs \<and> given ''--ref-ld-chr'' occs \<longrightarrow> \<not> accepts E cmd occs) \<and>
     (ldsc E cmd occs = Inr ns \<longrightarrow>
        (\<not> given ''--ref-ld'' occs \<longrightarrow> ns ''ref_ld'' = Some PyNone) \<and>
        (\<not> given ''--ref-ld-chr'' occs \<longrightarrow> ns ''ref_ld_chr'' = Some (Path '''')) \<and>
        (\<not> given ''--w-ld-chr'' occs \<longrightarrow> ns ''w_ld_chr'' = Some PyNone))"
proof -
  let ?r = "add_argument (Some ref_ld_group) ''--ref-ld'' PyNone type_str store False"
  let ?c = "add_argument (Some ref_ld_group) ''--ref-ld-chr'' (Path '''') type_Path store False"
  let ?w = "add_argument (Some w_ld_group) ''--w-ld-chr'' PyNone type_Path store False"
  have d: "?r \<in> set (declared cmd)" "?c \<in> set (declared cmd)" "?w \<in> set (declared cmd)"
    by (rule common_declared, simp add: common_ldsc_parser_def)+
  have ne: "?r \<noteq> ?c"
    by (rule distinct_flags_distinct_args [of _ "''--ref-ld''" _ "''--ref-ld-chr''"]) simp_all
  have both: "\<not> accepts E cmd occs" if "given ''--ref-ld'' occs" "given ''--ref-ld-chr'' occs"
    by (rule rejects_both [OF assms d(1,2) ne, of "''--ref-ld''" occs "''--ref-ld-chr''"])
      (simp_all add: that)
  have dr: "ns ''ref_ld'' = Some PyNone"
    if r: "ldsc E cmd occs = Inr ns" and n: "\<not> given ''--ref-ld'' occs"
    using untouched_default [OF assms r d(1)] n by (simp add: common_dests)
  have dc: "ns ''ref_ld_chr'' = Some (Path '''')"
    if r: "ldsc E cmd occs = Inr ns" and n: "\<not> given ''--ref-ld-chr'' occs"
    using untouched_default [OF assms r d(2)] n by (simp add: common_dests)
  have dw: "ns ''w_ld_chr'' = Some PyNone"
    if r: "ldsc E cmd occs = Inr ns" and n: "\<not> given ''--w-ld-chr'' occs"
    using untouched_default [OF assms r d(3)] n by (simp add: common_dests)
  show ?thesis using both dr dc dw by blast
qed

theorem ref_ld_exclusive_and_defaults_witness:
  "parent_ok (parent_parser example_env) \<and>
   given ''--ref-ld'' [(''--h2'', Some ''trait.sumstats''), (''--ref-ld'', Some ''ld/all''),
      (''--ref-ld-chr'', Some ''ld/'')] \<and>
   given ''--ref-ld-chr'' [(''--h2'', Some ''trait.sumstats''), (''--ref-ld'', Some ''ld/all''),
      (''--ref-ld-chr'', Some ''ld/'')] \<and>
   \<not> accepts example_env h2 [(''--h2'', Some ''trait.sumstats''), (''--ref-ld'', Some ''ld/all''),
      (''--ref-ld-chr'', Some ''ld/'')] \<and>
   \<not> given ''--ref-ld'' [(''--h2'', Some ''trait.sumstats'')] \<and>
   \<not> given ''--ref-ld-chr'' [(''--h2'', Some ''trait.sumstats'')] \<and>
   \<not> given ''--w-ld-chr'' [(''--h2'', Some ''trait.sumstats'')] \<and>
   (\<exists>ns. ldsc example_env h2 [(''--h2'', Some ''trait.sumstats'')] = Inr ns \<and>
      ns ''ref_ld'' = Some PyNone \<and> ns ''ref_ld_chr'' = Some (Path '''') \<and>
      ns ''w_ld_chr'' = Some PyNone)"
proof -
  let ?both = "[(''--h2'', Some ''trait.sumstats''), (''--ref-ld'', Some ''ld/all''),
      (''--ref-ld-chr'', Some ''ld/'')]"
  let ?none = "[(''--h2'', Some ''trait.sumstats'')]"
  have g: "given ''--ref-ld'' ?both" "given ''--ref-ld-chr'' ?both"
    by (simp_all add: given_def)
  have n: "\<not> given ''--ref-ld'' ?none" "\<not> given ''--ref-ld-chr'' ?none"
    "\<not> given ''--w-ld-chr'' ?none"
    by (simp_all add: given_def)
  have "accepts example_env h2 ?none" by code_simp
  then obtain ns where r: "ldsc example_env h2 ?none = Inr ns"
    by (auto simp: accepts_ldsc)
  have 1: "\<not> accepts example_env h2 ?both"
    using ref_ld_exclusive_and_defaults [OF example_env_ok, of ?both h2] g by blast
  have 2: "ns ''ref_ld'' = Some PyNone \<and> ns ''ref_ld_chr'' = Some (Path '''') \<and>
      ns ''w_ld_chr'' = Some PyNone"
    using ref_ld_exclusive_and_defaults [OF example_env_ok, of ?none h2 ns] r n by blast
  show ?thesis using example_env_ok g n 1 2 r by blast
qed

text \<open>
  C9. An accepted \<^verbatim>\<open>generate-ldscores\<close> invocation supplies both \<^verbatim>\<open>--bfile\<close> and \<^verbatim>\<open>--l2\<close>, and
  its configuration has \<^verbatim>\<open>l2\<close> equal to \<^verbatim>\<open>True\<close> and \<^verbatim>\<open>bfile\<close> a string. The declared
  default \<^verbatim>\<open>False\<close> of \<^verbatim>\<open>l2\<close>, which the namespace holds before the command line is read, is
  in no accepted configuration.
\<close>

theorem l2_required_hence_true:
  assumes "parent_ok (parent_parser E)"
  shows
    "initial_namespace (subparser E generate_ldscores) (func generate_ldscores) ''l2'' =
        Some (PyBool False) \<and>
     (ldsc E generate_ldscores occs = Inr ns \<longrightarrow>
        given ''--bfile'' occs \<and> given ''--l2'' occs \<and> ns ''l2'' = Some (PyBool True) \<and>
        (\<exists>s. ns ''bfile'' = Some (PyStr s)))"
proof -
  let ?b = "add_argument None ''--bfile'' PyNone type_str store True"
  let ?l = "add_argument None ''--l2'' (PyBool False) type_unset store_true True"
  let ?acts = "subparser E generate_ldscores"
  have d: "?b \<in> set (declared generate_ldscores)" "?l \<in> set (declared generate_ldscores)"
    by (rule ldscore_declared, simp add: ldscore_parser_def)+
  have u: "\<forall>b\<in>set ?acts. dest b = dest ?l \<longrightarrow> b = ?l"
    using dest_declared_unique [OF assms d(2)] by blast
  have "?l \<in> set ?acts" using d(2) by (simp add: subparser_set)
  then have init: "initial_namespace ?acts (func generate_ldscores) ''l2'' = Some (PyBool False)"
    using initial_namespace_dest [of ?l ?acts "func generate_ldscores"] u
    by (simp add: common_dests)
  have main: "given ''--bfile'' occs \<and> given ''--l2'' occs \<and> ns ''l2'' = Some (PyBool True) \<and>
        (\<exists>s. ns ''bfile'' = Some (PyStr s))"
    if r: "ldsc E generate_ldscores occs = Inr ns"
  proof -
    have acc: "accepts E generate_ldscores occs" using r by (auto simp: accepts_ldsc)
    have gb: "given ''--bfile'' occs"
      by (rule required_given [OF assms acc d(1)]) simp_all
    have gl: "given ''--l2'' occs"
      by (rule required_given [OF assms acc d(2)]) simp_all
    have "ns (dest ?l) = Some (PyBool True)"
    proof (rule written_value [OF assms r d(2) _ gl, where Q = "\<lambda>x. x = Some (PyBool True)"])
      show "''--l2'' \<in> set (option_strings ?l)" by simp
    next
      fix occ v ns0 ns'
      assume "call_action E ?l v ns0 = Inr ns'"
      then show "ns' (dest ?l) = Some (PyBool True)" by (auto simp: call_action_def)
    qed
    then have l: "ns ''l2'' = Some (PyBool True)" by (simp add: common_dests)
    have "\<exists>s. ns (dest ?b) = Some (PyStr s)"
    proof (rule written_value [OF assms r d(1) _ gb, where Q = "\<lambda>x. \<exists>s. x = Some (PyStr s)"])
      show "''--bfile'' \<in> set (option_strings ?b)" by simp
    next
      fix occ v ns0 ns'
      assume "get_values E ?b occ = Inr v" "call_action E ?b v ns0 = Inr ns'"
      then show "\<exists>s. ns' (dest ?b) = Some (PyStr s)"
        by (auto simp: call_action_def get_values_def nargs0_def split: option.splits)
    qed
    then have b: "\<exists>s. ns ''bfile'' = Some (PyStr s)" by (simp add: common_dests)
    show ?thesis using gb gl l b by blast
  qed
  show ?thesis using init main by blast
qed

theorem l2_required_hence_true_witness:
  "parent_ok (parent_parser example_env) \<and>
   (\<exists>ns. ldsc example_env generate_ldscores [(''--l2'', None), (''--bfile'', Some ''geno'')] = Inr ns \<and>
      ns ''l2'' = Some (PyBool True) \<and> (\<exists>s. ns ''bfile'' = Some (PyStr s))) \<and>
   given ''--bfile'' [(''--l2'', None), (''--bfile'', Some ''geno'')] \<and>
   given ''--l2'' [(''--l2'', None), (''--bfile'', Some ''geno'')] \<and>
   \<not> accepts example_env generate_ldscores [(''--bfile'', Some ''geno'')]"
proof -
  let ?occs = "[(''--l2'', None), (''--bfile'', Some ''geno'')]"
  have "accepts example_env generate_ldscores ?occs" by code_simp
  then obtain ns where r: "ldsc example_env generate_ldscores ?occs = Inr ns"
    by (auto simp: accepts_ldsc)
  have 1: "given ''--bfile'' ?occs \<and> given ''--l2'' ?occs \<and> ns ''l2'' = Some (PyBool True) \<and>
        (\<exists>s. ns ''bfile'' = Some (PyStr s))"
    using l2_required_hence_true [OF example_env_ok, of ?occs ns] r by blast
  have 2: "\<not> accepts example_env generate_ldscores [(''--bfile'', Some ''geno'')]"
  proof
    assume "accepts example_env generate_ldscores [(''--bfile'', Some ''geno'')]"
    then obtain ns' where "ldsc example_env generate_ldscores [(''--bfile'', Some ''geno'')] = Inr ns'"
      by (auto simp: accepts_ldsc)
    then have "given ''--l2'' [(''--bfile'', Some ''geno'')]"
      using l2_required_hence_true [OF example_env_ok, of "[(''--bfile'', Some ''geno'')]" ns']
      by blast
    then show False by (simp add: given_def)
  qed
  show ?thesis using example_env_ok r 1 2 by blast
qed



text \<open>
  C4. With the regression as the spec words it, for every subcommand and every
  ill-conditioned design: an accepted configuration without \<^verbatim>\<open>--invert-anyway\<close> has the flag
  off (its default) and the solve fails with SingularDesign; one with \<^verbatim>\<open>--invert-anyway\<close>
  has the flag on and the solve returns the pseudo-inverse result flagged approximate.
\<close>

theorem singular_design_unless_invert_anyway:
  assumes "parent_ok (parent_parser E)"
  shows
    "ldsc E cmd occs = Inr ns \<and> exact_inverse design = None \<longrightarrow>
       flag_set ns ''invert_anyway'' = given ''--invert-anyway'' occs \<and>
       solve (flag_set ns ''invert_anyway'') exact_inverse pseudo_inverse design =
         (if given ''--invert-anyway'' occs
          then Inr \<lparr>coefficients = pseudo_inverse design, approximate = True\<rparr>
          else Inl SingularDesign)"
proof (intro impI, elim conjE)
  assume r: "ldsc E cmd occs = Inr ns" and i: "exact_inverse design = None"
  have d: "add_argument None ''--invert-anyway'' (PyBool False) type_unset store_true False
      \<in> set (declared cmd)"
    by (rule common_declared) (simp add: common_ldsc_parser_def)
  have f: "flag_set ns ''invert_anyway'' = given ''--invert-anyway'' occs"
    using flag_value [OF assms r d] by (simp add: flag_set_def common_dests)
  show "flag_set ns ''invert_anyway'' = given ''--invert-anyway'' occs \<and>
       solve (flag_set ns ''invert_anyway'') exact_inverse pseudo_inverse design =
         (if given ''--invert-anyway'' occs
          then Inr \<lparr>coefficients = pseudo_inverse design, approximate = True\<rparr>
          else Inl SingularDesign)"
    using f i by (simp add: solve_def)
qed

theorem singular_design_unless_invert_anyway_witness:
  "parent_ok (parent_parser example_env) \<and> inverse1 0 = None \<and>
   (\<exists>ns. ldsc example_env h2 [(''--h2'', Some ''trait.sumstats'')] = Inr ns \<and>
      \<not> flag_set ns ''invert_anyway'' \<and>
      solve (flag_set ns ''invert_anyway'') inverse1 pseudo_inverse1 0 = Inl SingularDesign) \<and>
   (\<exists>ns. ldsc example_env h2 [(''--h2'', Some ''trait.sumstats''), (''--invert-anyway'', None)] = Inr ns \<and>
      flag_set ns ''invert_anyway'' \<and>
      solve (flag_set ns ''invert_anyway'') inverse1 pseudo_inverse1 0 =
        Inr \<lparr>coefficients = 0, approximate = True\<rparr>)"
proof -
  let ?off = "[(''--h2'', Some ''trait.sumstats'')]"
  let ?on = "[(''--h2'', Some ''trait.sumstats''), (''--invert-anyway'', None)]"
  have i: "inverse1 0 = None" by (simp add: inverse1_def)
  have p: "pseudo_inverse1 0 = 0" by (simp add: pseudo_inverse1_def)
  have g: "\<not> given ''--invert-anyway'' ?off" "given ''--invert-anyway'' ?on"
    by (simp_all add: given_def)
  have "accepts example_env h2 ?off" by code_simp
  then obtain ns1 where r1: "ldsc example_env h2 ?off = Inr ns1" by (auto simp: accepts_ldsc)
  have "accepts example_env h2 ?on" by code_simp
  then obtain ns2 where r2: "ldsc example_env h2 ?on = Inr ns2" by (auto simp: accepts_ldsc)
  note t = singular_design_unless_invert_anyway [OF example_env_ok]
  have 1: "\<not> flag_set ns1 ''invert_anyway'' \<and>
      solve (flag_set ns1 ''invert_anyway'') inverse1 pseudo_inverse1 0 = Inl SingularDesign"
  proof -
    have "flag_set ns1 ''invert_anyway'' = given ''--invert-anyway'' ?off \<and>
       solve (flag_set ns1 ''invert_anyway'') inverse1 pseudo_inverse1 0 =
         (if given ''--invert-anyway'' ?off
          then Inr \<lparr>coefficients = pseudo_inverse1 0, approximate = True\<rparr>
          else Inl SingularDesign)"
      using t [of h2 ?off ns1 inverse1 0 pseudo_inverse1] r1 i by blast
    then show ?thesis using g(1) by auto
  qed
  have 2: "flag_set ns2 ''invert_anyway'' \<and>
      solve (flag_set ns2 ''invert_anyway'') inverse1 pseudo_inverse1 0 =
        Inr \<lparr>coefficients = 0, approximate = True\<rparr>"
  proof -
    have "flag_set ns2 ''invert_anyway'' = given ''--invert-anyway'' ?on \<and>
       solve (flag_set ns2 ''invert_anyway'') inverse1 pseudo_inverse1 0 =
         (if given ''--invert-anyway'' ?on
          then Inr \<lparr>coefficients = pseudo_inverse1 0, approximate = True\<rparr>
          else Inl SingularDesign)"
      using t [of h2 ?on ns2 inverse1 0 pseudo_inverse1] r2 i by blast
    then show ?thesis using g(2) p by auto
  qed
  show ?thesis using example_env_ok i r1 r2 1 2 by blast
qed

text \<open>
  C5. With the harmonization as the spec words it, for an accepted \<^verbatim>\<open>rg\<close> configuration:
  \<^verbatim>\<open>no_check_alleles\<close> is on exactly when \<^verbatim>\<open>--no-check-alleles\<close> was supplied (off by
  default). When it is on, no AlleleMismatch is raised and every SNP is kept. When it is
  off and the run goes on, every SNP whose alleles cannot be matched is dropped and the
  surfaced count is the number of such SNPs.
\<close>

theorem allele_mismatch_unless_no_check:
  assumes "parent_ok (parent_parser E)"
  shows
    "ldsc E rg occs = Inr ns \<longrightarrow>
       flag_set ns ''no_check_alleles'' = given ''--no-check-alleles'' occs \<and>
       (given ''--no-check-alleles'' occs \<longrightarrow>
          harmonize (flag_set ns ''no_check_alleles'') matchable threshold snps =
            Inr \<lparr>kept = snps, mismatches = 0\<rparr>) \<and>
       (\<not> given ''--no-check-alleles'' occs \<and>
        harmonize (flag_set ns ''no_check_alleles'') matchable threshold snps = Inr h \<longrightarrow>
          (\<forall>s\<in>set snps. \<not> matchable s \<longrightarrow> s \<notin> set (kept h)) \<and>
          (\<forall>s\<in>set snps. matchable s \<longrightarrow> s \<in> set (kept h)) \<and>
          mismatches h = length (filter (\<lambda>s. \<not> matchable s) snps))"
proof
  assume r: "ldsc E rg occs = Inr ns"
  have d: "add_argument None ''--no-check-alleles'' (PyBool False) type_unset store_true False
      \<in> set (declared rg)"
    by (rule common_declared) (simp add: common_ldsc_parser_def)
  have f: "flag_set ns ''no_check_alleles'' = given ''--no-check-alleles'' occs"
    using flag_value [OF assms r d] by (simp add: flag_set_def common_dests)
  show "flag_set ns ''no_check_alleles'' = given ''--no-check-alleles'' occs \<and>
       (given ''--no-check-alleles'' occs \<longrightarrow>
          harmonize (flag_set ns ''no_check_alleles'') matchable threshold snps =
            Inr \<lparr>kept = snps, mismatches = 0\<rparr>) \<and>
       (\<not> given ''--no-check-alleles'' occs \<and>
        harmonize (flag_set ns ''no_check_alleles'') matchable threshold snps = Inr h \<longrightarrow>
          (\<forall>s\<in>set snps. \<not> matchable s \<longrightarrow> s \<notin> set (kept h)) \<and>
          (\<forall>s\<in>set snps. matchable s \<longrightarrow> s \<in> set (kept h)) \<and>
          mismatches h = length (filter (\<lambda>s. \<not> matchable s) snps))"
    unfolding f by (auto simp: harmonize_def Let_def split: if_splits)
qed

theorem allele_mismatch_unless_no_check_witness:
  "parent_ok (parent_parser example_env) \<and>
   (\<exists>ns. ldsc example_env rg [(''--rg'', Some ''a.sumstats''), (''--rg'', Some ''b.sumstats'')] = Inr ns \<and>
      \<not> flag_set ns ''no_check_alleles'' \<and>
      harmonize (flag_set ns ''no_check_alleles'') (\<lambda>s. s \<noteq> ''rs2'') (1 / 2)
          [''rs1'', ''rs2'', ''rs3''] =
        Inr \<lparr>kept = [''rs1'', ''rs3''], mismatches = 1\<rparr>) \<and>
   (\<exists>ns. ldsc example_env rg [(''--rg'', Some ''a.sumstats''), (''--rg'', Some ''b.sumstats''),
          (''--no-check-alleles'', None)] = Inr ns \<and>
      flag_set ns ''no_check_alleles'' \<and>
      harmonize (flag_set ns ''no_check_alleles'') (\<lambda>s. s \<noteq> ''rs2'') (1 / 2)
          [''rs1'', ''rs2'', ''rs3''] =
        Inr \<lparr>kept = [''rs1'', ''rs2'', ''rs3''], mismatches = 0\<rparr>)"
proof -
  let ?off = "[(''--rg'', Some ''a.sumstats''), (''--rg'', Some ''b.sumstats'')]"
  let ?on = "[(''--rg'', Some ''a.sumstats''), (''--rg'', Some ''b.sumstats''),
          (''--no-check-alleles'', None)]"
  let ?m = "\<lambda>s. s \<noteq> ''rs2''"
  let ?snps = "[''rs1'', ''rs2'', ''rs3'']"
  have g: "\<not> given ''--no-check-alleles'' ?off" "given ''--no-check-alleles'' ?on"
    by (simp_all add: given_def)
  have "accepts example_env rg ?off" by code_simp
  then obtain ns1 where r1: "ldsc example_env rg ?off = Inr ns1" by (auto simp: accepts_ldsc)
  have "accepts example_env rg ?on" by code_simp
  then obtain ns2 where r2: "ldsc example_env rg ?on = Inr ns2" by (auto simp: accepts_ldsc)
  note t = allele_mismatch_unless_no_check [OF example_env_ok]
  have f1: "\<not> flag_set ns1 ''no_check_alleles''"
    using t [of ?off ns1] r1 g(1) by blast
  have h1: "harmonize (flag_set ns1 ''no_check_alleles'') ?m (1 / 2) ?snps =
        Inr \<lparr>kept = [''rs1'', ''rs3''], mismatches = 1\<rparr>"
    using f1 by (simp add: harmonize_def)
  have f2: "flag_set ns2 ''no_check_alleles''"
    using t [of ?on ns2] r2 g(2) by blast
  have h2: "harmonize (flag_set ns2 ''no_check_alleles'') ?m (1 / 2) ?snps =
        Inr \<lparr>kept = ?snps, mismatches = 0\<rparr>"
    using t [of ?on ns2 ?m "1 / 2" ?snps] r2 g(2) by blast
  show ?thesis using example_env_ok r1 r2 f1 f2 h1 h2 by blast
qed

lemma stored_string:
  assumes ok: "parent_ok (parent_parser E)"
    and r: "ldsc E cmd occs = Inr ns"
    and a: "add_argument g f PyNone type_unset store False \<in> set (declared cmd)"
    and gv: "given f occs"
  shows "\<exists>s. (f, Some s) \<in> set occs \<and> ns (get_dest [f]) = Some (PyStr s)"
proof -
  let ?a = "add_argument g f PyNone type_unset store False"
  have "\<exists>s. (f, Some s) \<in> set occs \<and> ns (dest ?a) = Some (PyStr s)"
  proof (rule written_value [OF ok r a _ gv,
        where Q = "\<lambda>x. \<exists>s. (f, Some s) \<in> set occs \<and> x = Some (PyStr s)"])
    show "f \<in> set (option_strings ?a)" by simp
  next
    fix occ v ns0 ns'
    assume o: "occ \<in> set occs" "fst occ \<in> set (option_strings ?a)"
      and v: "get_values E ?a occ = Inr v" and c: "call_action E ?a v ns0 = Inr ns'"
    from o(2) have fo: "fst occ = f" by simp
    from v obtain s where s: "snd occ = Some s" "v = PyStr s"
      by (auto simp: get_values_def nargs0_def split: option.splits)
    have "occ = (f, Some s)" using fo s(1) by (cases occ) simp
    then have "(f, Some s) \<in> set occs" using o(1) by simp
    moreover have "ns' (dest ?a) = Some (PyStr s)"
      using c s(2) by (auto simp: call_action_def)
    ultimately show "\<exists>s. (f, Some s) \<in> set occs \<and> ns' (dest ?a) = Some (PyStr s)"
      by blast
  qed
  then show ?thesis by simp
qed

text \<open>
  C6. The parser stores \<^verbatim>\<open>--samp-prev\<close> and \<^verbatim>\<open>--pop-prev\<close> as the strings they were given,
  unchecked: adding either with any string to an accepted invocation leaves it accepted.
  With the conversion as the spec words it, for an accepted \<^verbatim>\<open>h2\<close> configuration that
  supplies both, the configuration holds two supplied strings, the observed-scale
  estimate is always returned, and when either prevalence lies outside (0,1) the
  liability-scale step is an InvalidPrevalence failure.
\<close>

theorem invalid_prevalence_only_liability:
  assumes "parent_ok (parent_parser E)"
  shows
    "(accepts E h2 (xs @ ys) \<longrightarrow>
        accepts E h2 (xs @ (''--samp-prev'', Some p') # ys) \<and>
        accepts E h2 (xs @ (''--pop-prev'', Some k') # ys)) \<and>
     (ldsc E h2 occs = Inr ns \<and> given ''--samp-prev'' occs \<and> given ''--pop-prev'' occs \<longrightarrow>
        (\<exists>p k. (''--samp-prev'', Some p) \<in> set occs \<and> (''--pop-prev'', Some k) \<in> set occs \<and>
           ns ''samp_prev'' = Some (PyStr p) \<and> ns ''pop_prev'' = Some (PyStr k) \<and>
           observed (summarize to_real factor ns h2_obs) = h2_obs \<and>
           liability (summarize to_real factor ns h2_obs) =
             Some (if 0 < to_real p \<and> to_real p < 1 \<and> 0 < to_real k \<and> to_real k < 1
                   then Inr (h2_obs * factor (to_real p) (to_real k))
                   else Inl InvalidPrevalence)))"
proof -
  let ?sp = "add_argument None ''--samp-prev'' PyNone type_unset store False"
  let ?pp = "add_argument None ''--pop-prev'' PyNone type_unset store False"
  have d: "?sp \<in> set (declared h2)" "?pp \<in> set (declared h2)"
    by (rule common_declared, simp add: common_ldsc_parser_def)+
  have ins: "accepts E h2 (xs @ (''--samp-prev'', Some p') # ys) \<and>
        accepts E h2 (xs @ (''--pop-prev'', Some k') # ys)"
    if acc: "accepts E h2 (xs @ ys)"
  proof
    show "accepts E h2 (xs @ (''--samp-prev'', Some p') # ys)"
      by (rule accepts_insert [OF assms acc d(1)]) (simp_all add: step_ok_store)
    show "accepts E h2 (xs @ (''--pop-prev'', Some k') # ys)"
      by (rule accepts_insert [OF assms acc d(2)]) (simp_all add: step_ok_store)
  qed
  have conv: "\<exists>p k. (''--samp-prev'', Some p) \<in> set occs \<and> (''--pop-prev'', Some k) \<in> set occs \<and>
           ns ''samp_prev'' = Some (PyStr p) \<and> ns ''pop_prev'' = Some (PyStr k) \<and>
           observed (summarize to_real factor ns h2_obs) = h2_obs \<and>
           liability (summarize to_real factor ns h2_obs) =
             Some (if 0 < to_real p \<and> to_real p < 1 \<and> 0 < to_real k \<and> to_real k < 1
                   then Inr (h2_obs * factor (to_real p) (to_real k))
                   else Inl InvalidPrevalence)"
    if r: "ldsc E h2 occs = Inr ns" and gs: "given ''--samp-prev'' occs"
      and gp: "given ''--pop-prev'' occs"
  proof -
    from stored_string [OF assms r d(1) gs] obtain p where
      p: "(''--samp-prev'', Some p) \<in> set occs" "ns ''samp_prev'' = Some (PyStr p)"
      by (auto simp: common_dests)
    from stored_string [OF assms r d(2) gp] obtain k where
      k: "(''--pop-prev'', Some k) \<in> set occs" "ns ''pop_prev'' = Some (PyStr k)"
      by (auto simp: common_dests)
    have "observed (summarize to_real factor ns h2_obs) = h2_obs"
      by (simp add: summarize_def)
    moreover have "liability (summarize to_real factor ns h2_obs) =
             Some (if 0 < to_real p \<and> to_real p < 1 \<and> 0 < to_real k \<and> to_real k < 1
                   then Inr (h2_obs * factor (to_real p) (to_real k))
                   else Inl InvalidPrevalence)"
      using p(2) k(2) by (simp add: summarize_def liability_scale_def)
    ultimately show ?thesis using p k by blast
  qed
  show ?thesis using ins conv by blast
qed

theorem invalid_prevalence_only_liability_witness:
  "parent_ok (parent_parser example_env) \<and>
   accepts example_env h2 [(''--h2'', Some ''trait.sumstats'')] \<and>
   accepts example_env h2 [(''--h2'', Some ''trait.sumstats''), (''--samp-prev'', Some ''1.5'')] \<and>
   given ''--samp-prev'' [(''--h2'', Some ''trait.sumstats''), (''--samp-prev'', Some ''1.5''),
      (''--pop-prev'', Some ''0.01'')] \<and>
   given ''--pop-prev'' [(''--h2'', Some ''trait.sumstats''), (''--samp-prev'', Some ''1.5''),
      (''--pop-prev'', Some ''0.01'')] \<and>
   example_real ''1.5'' = 3 / 2 \<and> example_real ''0.01'' = 1 / 100 \<and>
   (\<exists>ns. ldsc example_env h2 [(''--h2'', Some ''trait.sumstats''), (''--samp-prev'', Some ''1.5''),
          (''--pop-prev'', Some ''0.01'')] = Inr ns \<and>
      observed (summarize example_real (\<lambda>P K. K * (1 - K) / (P * (1 - P))) ns (2 / 5)) = 2 / 5 \<and>
      liability (summarize example_real (\<lambda>P K. K * (1 - K) / (P * (1 - P))) ns (2 / 5)) =
        Some (Inl InvalidPrevalence))"
proof -
  let ?base = "[(''--h2'', Some ''trait.sumstats'')]"
  let ?occs = "[(''--h2'', Some ''trait.sumstats''), (''--samp-prev'', Some ''1.5''),
      (''--pop-prev'', Some ''0.01'')]"
  let ?f = "\<lambda>P K :: real. K * (1 - K) / (P * (1 - P))"
  have a0: "accepts example_env h2 (?base @ [])" by code_simp
  have g: "given ''--samp-prev'' ?occs" "given ''--pop-prev'' ?occs"
    by (simp_all add: given_def)
  have e: "example_real ''1.5'' = 3 / 2" "example_real ''0.01'' = 1 / 100"
    by (simp_all add: example_real_def digit_val_def)
  note t = invalid_prevalence_only_liability [OF example_env_ok]
  have a1: "accepts example_env h2 (?base @ (''--samp-prev'', Some ''1.5'') # [])"
    using t [of ?base "[]" "''1.5''"] a0 by blast
  have "accepts example_env h2 ?occs" by code_simp
  then obtain ns where r: "ldsc example_env h2 ?occs = Inr ns" by (auto simp: accepts_ldsc)
  from t [of _ _ _ _ ?occs ns example_real ?f "2 / 5"] r g
  obtain p k where pk: "(''--samp-prev'', Some p) \<in> set ?occs" "(''--pop-prev'', Some k) \<in> set ?occs"
    "observed (summarize example_real ?f ns (2 / 5)) = 2 / 5"
    "liability (summarize example_real ?f ns (2 / 5)) =
       Some (if 0 < example_real p \<and> example_real p < 1 \<and> 0 < example_real k \<and> example_real k < 1
             then Inr (2 / 5 * ?f (example_real p) (example_real k))
             else Inl InvalidPrevalence)"
    by blast
  have "p = ''1.5''" using pk(1) by simp
  then have "liability (summarize example_real ?f ns (2 / 5)) = Some (Inl InvalidPrevalence)"
    using pk(4) e(1) by simp
  then show ?thesis using example_env_ok a0 a1 g e r pk(3) by auto
qed

text \<open>
  C7. With the counts as the spec words them: for every category the calculator emits
  both counts, M counting the SNPs of the category and M_5_50 those among them with minor
  allele frequency above 0.05 and below 0.50 (so at most M). For an accepted
  configuration of any subcommand, \<^verbatim>\<open>not_M_5_50\<close> is on exactly when \<^verbatim>\<open>--not-M-5-50\<close> was
  supplied (off by default), and the regression normalizes by M_5_50 unless it is on, when
  it normalizes by M.
\<close>

theorem normalize_by_M_5_50_by_default:
  assumes "parent_ok (parent_parser E)"
  shows
    "M (emit_counts maf member snps c) = length (filter (member c) snps) \<and>
     M_5_50 (emit_counts maf member snps c) =
       length (filter (\<lambda>s. member c s \<and> 5 / 100 < maf s \<and> maf s < 50 / 100) snps) \<and>
     M_5_50 (emit_counts maf member snps c) \<le> M (emit_counts maf member snps c) \<and>
     (ldsc E cmd occs = Inr ns \<longrightarrow>
        flag_set ns ''not_M_5_50'' = given ''--not-M-5-50'' occs \<and>
        normalizer (flag_set ns ''not_M_5_50'') (emit_counts maf member snps c) =
          (if given ''--not-M-5-50'' occs then M (emit_counts maf member snps c)
           else M_5_50 (emit_counts maf member snps c)))"
proof -
  have le: "M_5_50 (emit_counts maf member snps c) \<le> M (emit_counts maf member snps c)"
  proof -
    have "filter (\<lambda>s. member c s \<and> 5 / 100 < maf s \<and> maf s < 50 / 100) snps =
        filter (\<lambda>s. 5 / 100 < maf s \<and> maf s < 50 / 100) (filter (member c) snps)"
      by (simp add: conj_commute)
    then show ?thesis
      by (simp only: emit_counts_def m_counts.simps length_filter_le)
  qed
  have fl: "flag_set ns ''not_M_5_50'' = given ''--not-M-5-50'' occs \<and>
        normalizer (flag_set ns ''not_M_5_50'') (emit_counts maf member snps c) =
          (if given ''--not-M-5-50'' occs then M (emit_counts maf member snps c)
           else M_5_50 (emit_counts maf member snps c))"
    if r: "ldsc E cmd occs = Inr ns"
  proof -
    have d: "add_argument None ''--not-M-5-50'' (PyBool False) type_unset store_true False
        \<in> set (declared cmd)"
      by (rule common_declared) (simp add: common_ldsc_parser_def)
    have f: "flag_set ns ''not_M_5_50'' = given ''--not-M-5-50'' occs"
      using flag_value [OF assms r d] by (simp add: flag_set_def common_dests)
    show ?thesis unfolding f by (simp add: normalizer_def)
  qed
  have m: "M (emit_counts maf member snps c) = length (filter (member c) snps)"
    by (simp add: emit_counts_def)
  have m5: "M_5_50 (emit_counts maf member snps c) =
       length (filter (\<lambda>s. member c s \<and> 5 / 100 < maf s \<and> maf s < 50 / 100) snps)"
    by (simp add: emit_counts_def)
  show ?thesis using m m5 le fl by blast
qed

theorem normalize_by_M_5_50_by_default_witness:
  "parent_ok (parent_parser example_env) \<and>
   emit_counts snd (\<lambda>c s. c \<in> set (fst s))
       [([0, 1], 3 / 10), ([0], 1 / 100), ([1], 2 / 5), ([0], 1 / 2)] (0::nat) =
     \<lparr>M = 3, M_5_50 = 1\<rparr> \<and>
   (\<exists>ns. ldsc example_env h2 [(''--h2'', Some ''trait.sumstats'')] = Inr ns \<and>
      normalizer (flag_set ns ''not_M_5_50'') \<lparr>M = 3, M_5_50 = 1\<rparr> = 1) \<and>
   (\<exists>ns. ldsc example_env h2 [(''--h2'', Some ''trait.sumstats''), (''--not-M-5-50'', None)] = Inr ns \<and>
      normalizer (flag_set ns ''not_M_5_50'') \<lparr>M = 3, M_5_50 = 1\<rparr> = 3)"
proof -
  let ?off = "[(''--h2'', Some ''trait.sumstats'')]"
  let ?on = "[(''--h2'', Some ''trait.sumstats''), (''--not-M-5-50'', None)]"
  let ?snps = "[([0, 1], 3 / 10), ([0], 1 / 100), ([1], 2 / 5), ([0], 1 / 2)] :: (nat list \<times> real) list"
  let ?mem = "\<lambda>(c::nat) (s :: nat list \<times> real). c \<in> set (fst s)"
  have c: "emit_counts snd ?mem ?snps 0 = \<lparr>M = 3, M_5_50 = 1\<rparr>"
    by (simp add: emit_counts_def)
  have g: "\<not> given ''--not-M-5-50'' ?off" "given ''--not-M-5-50'' ?on"
    by (simp_all add: given_def)
  have "accepts example_env h2 ?off" by code_simp
  then obtain ns1 where r1: "ldsc example_env h2 ?off = Inr ns1" by (auto simp: accepts_ldsc)
  have "accepts example_env h2 ?on" by code_simp
  then obtain ns2 where r2: "ldsc example_env h2 ?on = Inr ns2" by (auto simp: accepts_ldsc)
  note t = normalize_by_M_5_50_by_default [OF example_env_ok]
  have "normalizer (flag_set ns1 ''not_M_5_50'') (emit_counts snd ?mem ?snps 0) =
      (if given ''--not-M-5-50'' ?off then M (emit_counts snd ?mem ?snps 0)
       else M_5_50 (emit_counts snd ?mem ?snps 0))"
    using t [of snd ?mem ?snps 0 h2 ?off ns1] r1 by blast
  then have "normalizer (flag_set ns1 ''not_M_5_50'') \<lparr>M = 3, M_5_50 = 1\<rparr> =
      (if given ''--not-M-5-50'' ?off then M \<lparr>M = 3, M_5_50 = 1\<rparr>
       else M_5_50 \<lparr>M = 3, M_5_50 = 1\<rparr>)"
    by (simp only: c)
  then have 1: "normalizer (flag_set ns1 ''not_M_5_50'') \<lparr>M = 3, M_5_50 = 1\<rparr> = 1"
    using g(1) by simp
  have "normalizer (flag_set ns2 ''not_M_5_50'') (emit_counts snd ?mem ?snps 0) =
      (if given ''--not-M-5-50'' ?on then M (emit_counts snd ?mem ?snps 0)
       else M_5_50 (emit_counts snd ?mem ?snps 0))"
    using t [of snd ?mem ?snps 0 h2 ?on ns2] r2 by blast
  then have "normalizer (flag_set ns2 ''not_M_5_50'') \<lparr>M = 3, M_5_50 = 1\<rparr> =
      (if given ''--not-M-5-50'' ?on then M \<lparr>M = 3, M_5_50 = 1\<rparr>
       else M_5_50 \<lparr>M = 3, M_5_50 = 1\<rparr>)"
    by (simp only: c)
  then have 2: "normalizer (flag_set ns2 ''not_M_5_50'') \<lparr>M = 3, M_5_50 = 1\<rparr> = 3"
    using g(2) by simp
  show ?thesis using example_env_ok c r1 r2 1 2 by blast
qed

end
